theory Spec2Isabelle
  imports Complex_Main
begin

section \<open>Simple Dubins path: an embedding of simple\_dubins\_path.cpp\<close>

text \<open>
  The planner computes with C++ \<open>double\<close>. The first embedding idealises \<open>double\<close> as
  \<^typ>\<open>real\<close>: every arithmetic operation is the exact one, \<open>std::sqrt\<close> is
  \<^const>\<open>sqrt\<close>, \<open>atan\<close> is \<^const>\<open>arctan\<close>, \<open>M_PI\<close> is \<^const>\<open>pi\<close>.
  Rounding, infinities and NaN are outside it. It serves the claims that do not turn on
  rounding: the shape of the path, the geometry of the samples, what is left of the
  caller's path. Where a claim turns on rounding, the expressions it is about are
  embedded again, with rounding (section ``Rounded double arithmetic''). Logging
  (\<open>ROS_WARN\<close>, \<open>ROS_ERROR\<close>) does not influence any result and is left out.
\<close>

subsection \<open>Messages\<close>

type_synonym time = nat

record header =
  seq :: nat
  stamp :: time
  frame_id :: string

record point =
  pos_x :: real
  pos_y :: real
  pos_z :: real

record quaternion =
  q_x :: real
  q_y :: real
  q_z :: real
  q_w :: real

record pose =
  position :: point
  orientation :: quaternion

record pose_stamped =
  ps_header :: header
  ps_pose :: pose

record path =
  path_header :: header
  poses :: "pose_stamped list"

abbreviation ps_x :: "pose_stamped \<Rightarrow> real" where
  "ps_x p \<equiv> pos_x (position (ps_pose p))"

abbreviation ps_y :: "pose_stamped \<Rightarrow> real" where
  "ps_y p \<equiv> pos_y (position (ps_pose p))"

text \<open>A default-constructed \<open>geometry_msgs::PoseStamped\<close>: every field is zero or empty.\<close>

definition default_pose_stamped :: pose_stamped where
  "default_pose_stamped =
     \<lparr>ps_header = \<lparr>seq = 0, stamp = 0, frame_id = []\<rparr>,
      ps_pose = \<lparr>position = \<lparr>pos_x = 0, pos_y = 0, pos_z = 0\<rparr>,
                 orientation = \<lparr>q_x = 0, q_y = 0, q_z = 0, q_w = 0\<rparr>\<rparr>\<rparr>"

text \<open>
  The body of both sampling loops: a fresh \<open>PoseStamped\<close> whose stamp is the clock
  reading \<open>t\<close>, whose frame is \<open>map\<close> and whose position is \<open>(px, py)\<close>.
\<close>

definition sample_point :: "time \<Rightarrow> real \<Rightarrow> real \<Rightarrow> pose_stamped" where
  "sample_point t px py =
     default_pose_stamped
       \<lparr>ps_header := (ps_header default_pose_stamped)\<lparr>stamp := t, frame_id := ''map''\<rparr>,
        ps_pose := (ps_pose default_pose_stamped)
          \<lparr>position := (position (ps_pose default_pose_stamped))\<lparr>pos_x := px, pos_y := py\<rparr>\<rparr>\<rparr>"

subsection \<open>Configuration and constants\<close>

record config =
  turningRadius :: real
  pathResolution :: real

text \<open>\<open>std::numeric_limits<double>::epsilon()\<close>, the gap between 1 and the next double.\<close>

definition epsilon :: real where
  "epsilon = 1 / 2 ^ 52"

datatype Dir = Left | Right

text \<open>
  Modelled from the spec: the enumeration \<open>Dir\<close> is declared in the header
  \<open>simple_dubins_path.h\<close>, which is not among the sources. The source multiplies a
  \<open>Dir\<close> with a double; the spec gives the sign \<open>+1\<close> to \<open>Left\<close> and \<open>-1\<close> to \<open>Right\<close>.
\<close>

definition dir_value :: "Dir \<Rightarrow> real" where
  "dir_value d = (case d of Left \<Rightarrow> 1 | Right \<Rightarrow> - 1)"

text \<open>
  \<open>std::atan2\<close> on reals: the angle in \<open>(-pi, pi]\<close> of the point \<open>(x, y)\<close>, and 0 at the
  origin. (Signed zeros do not exist in the idealisation.)
\<close>

definition atan2 :: "real \<Rightarrow> real \<Rightarrow> real" where
  "atan2 y x =
     (if 0 < x then arctan (y / x)
      else if x < 0 then (if 0 \<le> y then arctan (y / x) + pi else arctan (y / x) - pi)
      else if 0 < y then pi / 2
      else if y < 0 then - (pi / 2)
      else 0)"

subsection \<open>turningDirection and turningCenter\<close>

definition turningDirection :: "real \<Rightarrow> real \<Rightarrow> real \<Rightarrow> real \<Rightarrow> real \<Rightarrow> Dir" where
  "turningDirection x_q y_q theta_q x_n y_n =
     (if - (x_n - x_q) * sin theta_q + (y_n - y_q) * cos theta_q > 0 then Left else Right)"

definition turningCenter ::
  "config \<Rightarrow> real \<Rightarrow> real \<Rightarrow> real \<Rightarrow> real \<Rightarrow> real \<Rightarrow> real \<times> real" where
  "turningCenter cfg x_q y_q theta_q x_n y_n =
     (let x_cr1 = x_q + sin theta_q * turningRadius cfg;
          y_cr1 = y_q - cos theta_q * turningRadius cfg;
          x_cr2 = x_q - sin theta_q * turningRadius cfg;
          y_cr2 = y_q + cos theta_q * turningRadius cfg
      in if (x_n - x_cr1)\<^sup>2 + (y_n - y_cr1)\<^sup>2 < (x_n - x_cr2)\<^sup>2 + (y_n - y_cr2)\<^sup>2
         then (x_cr1, y_cr1) else (x_cr2, y_cr2))"

subsection \<open>tangentLine\<close>

text \<open>
  The argument of the square root and the divisor of the branch that is taken, named so
  that statements can speak about them.
\<close>

definition tangentLine_radicand :: "config \<Rightarrow> real \<Rightarrow> real \<Rightarrow> real" where
  "tangentLine_radicand cfg a b = a * a + b * b - turningRadius cfg * turningRadius cfg"

definition tangentLine_divisor :: "config \<Rightarrow> real \<Rightarrow> real" where
  "tangentLine_divisor cfg b =
     (if \<bar>b + turningRadius cfg\<bar> < epsilon then b - turningRadius cfg else b + turningRadius cfg)"

definition tangentLine ::
  "config \<Rightarrow> real \<Rightarrow> real \<Rightarrow> real \<Rightarrow> real \<Rightarrow> real \<times> real" where
  "tangentLine cfg x_n y_n x_cr y_cr =
     (let a = x_cr - x_n;
          b = y_n - y_cr;
          (beta1, beta2) =
            (if \<bar>b + turningRadius cfg\<bar> < epsilon
             then (2 * arctan ((a - sqrt (tangentLine_radicand cfg a b)) / tangentLine_divisor cfg b),
                   2 * arctan ((a + sqrt (tangentLine_radicand cfg a b)) / tangentLine_divisor cfg b))
             else (2 * arctan ((a + sqrt (tangentLine_radicand cfg a b)) / tangentLine_divisor cfg b),
                   2 * arctan ((a - sqrt (tangentLine_radicand cfg a b)) / tangentLine_divisor cfg b)));
          beta1 = (if beta1 < 0 then beta1 + pi else beta1);
          beta2 = (if beta2 < 0 then beta2 + pi else beta2)
      in (beta1, beta2))"

subsection \<open>tangentPoint\<close>

definition tangentPoint ::
  "real \<Rightarrow> real \<Rightarrow> real \<Rightarrow> real \<Rightarrow> real \<Rightarrow> real \<Rightarrow> real \<Rightarrow> real \<Rightarrow> Dir \<Rightarrow> real \<times> real" where
  "tangentPoint x_q y_q x_n y_n x_cr y_cr beta1 beta2 dir =
     (let x2 = x_n - x_cr;
          y2 = y_n - y_cr;
          x1 = (x_n + cos beta1) - x_cr;
          y1 = (y_n + sin beta1) - y_cr;
          dx = x2 - x1;
          dy = y2 - y1;
          dr = sqrt (dx * dx + dy * dy);
          D = x1 * y2 - x2 * y1;
          x_lc1 = D * dy / (dr * dr);
          y_lc1 = - D * dx / (dr * dr);
          x_lc1 = x_lc1 + x_cr;
          y_lc1 = y_lc1 + y_cr;
          x1 = (x_n + cos beta2) - x_cr;
          y1 = (y_n + sin beta2) - y_cr;
          dx = x2 - x1;
          dy = y2 - y1;
          dr = sqrt (dx * dx + dy * dy);
          D = x1 * y2 - x2 * y1;
          x_lc2 = D * dy / (dr * dr);
          y_lc2 = - D * dx / (dr * dr);
          x_lc2 = x_lc2 + x_cr;
          y_lc2 = y_lc2 + y_cr;
          v_start = (x_q - x_cr, y_q - y_cr);
          v_lc1 = (x_lc1 - x_cr, y_lc1 - y_cr);
          v_lc2 = (x_lc2 - x_cr, y_lc2 - y_cr);
          x1 = fst v_start;
          y1 = snd v_start;
          x2 = fst v_lc1;
          y2 = snd v_lc1;
          dot = x1 * x2 + y1 * y2;
          det = x1 * y2 - y1 * x2;
          angle1 = atan2 det dot;
          angle1 = (if angle1 < 0 then angle1 + 2 * pi else angle1);
          x2 = fst v_lc2;
          y2 = snd v_lc2;
          dot = x1 * x2 + y1 * y2;
          det = x1 * y2 - y1 * x2;
          angle2 = atan2 det dot;
          angle2 = (if angle2 < 0 then angle2 + 2 * pi else angle2)
      in case dir of
           Left \<Rightarrow> if angle1 < angle2 then (x_lc1, y_lc1) else (x_lc2, y_lc2)
         | Right \<Rightarrow> if angle1 > angle2 then (x_lc1, y_lc1) else (x_lc2, y_lc2))"

subsection \<open>generatePath\<close>

text \<open>
  \<open>ros::Time::now()\<close> is read once for the path header and once per sample. The clock
  is a function from the number of earlier readings to the time read; the loops carry
  that number.

  Both loops may run forever (a non-positive increment never reaches the stop
  condition), so they are partial functions: \<open>None\<close> is a loop that does not return.
\<close>

partial_function (option) arc_loop ::
  "config \<Rightarrow> (nat \<Rightarrow> time) \<Rightarrow> real \<Rightarrow> real \<Rightarrow> Dir \<Rightarrow> real \<Rightarrow> real \<Rightarrow> real \<Rightarrow> nat \<Rightarrow>
   pose_stamped list \<Rightarrow> (nat \<times> pose_stamped list) option" where
  "arc_loop cfg clk x_cr y_cr dir stopAngle angleIncrement i n ps =
     (if \<bar>i - stopAngle\<bar> > 2 * angleIncrement
      then arc_loop cfg clk x_cr y_cr dir stopAngle angleIncrement
             (i + dir_value dir * angleIncrement) (Suc n)
             (ps @ [sample_point (clk n) (x_cr + cos i * turningRadius cfg)
                                        (y_cr + sin i * turningRadius cfg)])
      else Some (n, ps))"

partial_function (option) line_loop ::
  "config \<Rightarrow> (nat \<Rightarrow> time) \<Rightarrow> real \<Rightarrow> real \<Rightarrow> real \<Rightarrow> real \<Rightarrow> real \<Rightarrow> real \<Rightarrow> nat \<Rightarrow>
   pose_stamped list \<Rightarrow> (nat \<times> pose_stamped list) option" where
  "line_loop cfg clk x_lc y_lc dx dx_norm dy_norm i n ps =
     (if \<bar>i * pathResolution cfg * dx_norm - dx\<bar> > 2 * pathResolution cfg
      then line_loop cfg clk x_lc y_lc dx dx_norm dy_norm (i + 1) (Suc n)
             (ps @ [sample_point (clk n) (x_lc + i * pathResolution cfg * dx_norm)
                                        (y_lc + i * pathResolution cfg * dy_norm)])
      else Some (n, ps))"

definition generatePath ::
  "config \<Rightarrow> (nat \<Rightarrow> time) \<Rightarrow> real \<Rightarrow> real \<Rightarrow> real \<Rightarrow> real \<Rightarrow> real \<Rightarrow> real \<Rightarrow> real \<Rightarrow> real \<Rightarrow>
   Dir \<Rightarrow> pose_stamped \<Rightarrow> path \<Rightarrow> path option" where
  "generatePath cfg clk x_q y_q x_n y_n x_cr y_cr x_lc y_lc dir goal pth =
     (let pth = pth\<lparr>path_header := (path_header pth)\<lparr>stamp := clk 0, frame_id := ''map''\<rparr>,
                    poses := []\<rparr>;
          startAngle = atan2 (y_q - y_cr) (x_q - x_cr);
          startAngle = (if startAngle < 0 then startAngle + 2 * pi else startAngle);
          stopAngle = atan2 (y_lc - y_cr) (x_lc - x_cr);
          stopAngle = (if stopAngle < 0 then stopAngle + 2 * pi else stopAngle);
          stopAngle = (if dir = Left \<and> stopAngle < startAngle then stopAngle + 2 * pi
                       else if dir = Right \<and> stopAngle > startAngle then stopAngle - 2 * pi
                       else stopAngle);
          angleIncrement = pathResolution cfg / turningRadius cfg
      in case arc_loop cfg clk x_cr y_cr dir stopAngle angleIncrement startAngle 1 (poses pth) of
           None \<Rightarrow> None
         | Some (n, ps) \<Rightarrow>
             (let dx = x_n - x_lc;
                  dy = y_n - y_lc;
                  dx_norm = dx / sqrt (dx * dx + dy * dy);
                  dy_norm = dy / sqrt (dx * dx + dy * dy)
              in case line_loop cfg clk x_lc y_lc dx dx_norm dy_norm 0 n ps of
                   None \<Rightarrow> None
                 | Some (n, ps) \<Rightarrow> Some (pth\<lparr>poses := ps @ [goal]\<rparr>)))"

subsection \<open>makePath and getTargetHeading\<close>

text \<open>
  \<open>tf::getYaw\<close> belongs to the tf library; it is a parameter of \<open>makePath\<close>. The result
  is the returned flag and the caller's path after the call; \<open>None\<close> is a call that does
  not return.
\<close>

definition makePath ::
  "config \<Rightarrow> (nat \<Rightarrow> time) \<Rightarrow> (quaternion \<Rightarrow> real) \<Rightarrow> pose_stamped \<Rightarrow> pose_stamped \<Rightarrow> path \<Rightarrow>
   (bool \<times> path) option" where
  "makePath cfg clk getYaw start goal pth =
     (let x_q = ps_x start;
          y_q = ps_y start;
          theta_q = getYaw (orientation (ps_pose start));
          x_n = ps_x goal;
          y_n = ps_y goal;
          dir = turningDirection x_q y_q theta_q x_n y_n;
          (x_cr, y_cr) = turningCenter cfg x_q y_q theta_q x_n y_n
      in if sqrt ((x_n - x_cr)\<^sup>2 + (y_n - y_cr)\<^sup>2) < turningRadius cfg
         then Some (False, pth)
         else
           (let (beta1, beta2) = tangentLine cfg x_n y_n x_cr y_cr;
                (x_lc, y_lc) = tangentPoint x_q y_q x_n y_n x_cr y_cr beta1 beta2 dir
            in case generatePath cfg clk x_q y_q x_n y_n x_cr y_cr x_lc y_lc dir goal pth of
                 None \<Rightarrow> None
               | Some pth' \<Rightarrow> Some (True, pth')))"

text \<open>The result is the returned flag and the value of \<open>yawTarget\<close> after the call.\<close>

definition getTargetHeading ::
  "config \<Rightarrow> real \<Rightarrow> real \<Rightarrow> real \<Rightarrow> real \<Rightarrow> real \<Rightarrow> real \<Rightarrow> bool \<times> real" where
  "getTargetHeading cfg x_q y_q theta_q x_n y_n yawTarget =
     (let dir = turningDirection x_q y_q theta_q x_n y_n;
          (x_cr, y_cr) = turningCenter cfg x_q y_q theta_q x_n y_n
      in if sqrt ((x_n - x_cr)\<^sup>2 + (y_n - y_cr)\<^sup>2) < turningRadius cfg
         then (False, yawTarget)
         else
           (let (beta1, beta2) = tangentLine cfg x_n y_n x_cr y_cr;
                (x_lc, y_lc) = tangentPoint x_q y_q x_n y_n x_cr y_cr beta1 beta2 dir
            in (True, atan2 (y_n - y_lc) (x_n - x_lc))))"


section \<open>Rounded double arithmetic\<close>

text \<open>
  Some claims are decided by the rounding of \<open>double\<close>: whether the arc loop ends, which
  of two nearly equal numbers a comparison finds smaller, the sign of a difference of
  nearly equal numbers. For them the source's expressions are embedded a second time,
  with the rounding of IEEE 754 binary64 arithmetic: every one of \<open>+\<close>, \<open>-\<close>, \<open>*\<close>, \<open>/\<close>
  and \<open>std::sqrt\<close> gives the exact result rounded to the nearest number with a significand
  of 53 bits, a tie going to the even significand, and each operation is rounded on its
  own (no fused multiply-add, no extended precision). The exponent range is not bounded:
  overflow to infinity and subnormal numbers are outside the model. A \<open>double\<close> is a real
  \<open>x\<close> with \<open>rnd x = x\<close>.

  \<open>round_even y\<close> is the integer nearest to \<open>y\<close>, the even one of the two when \<open>y\<close> lies
  half-way. \<open>rnd x\<close> scales \<open>x\<close> by the unit in the last place of its binade
  \<open>2 powi e \<le> \<bar>x\<bar> < 2 powi (e + 1)\<close>, which is \<open>2 powi (e - 52)\<close>, and rounds the quotient.
\<close>

definition round_even :: "real \<Rightarrow> int" where
  "round_even y = (let f = \<lfloor>y\<rfloor> in
              if y - of_int f < 1 / 2 then f
              else if 1 / 2 < y - of_int f then f + 1
              else if even f then f else f + 1)"

definition rnd :: "real \<Rightarrow> real" where
  "rnd x = (if x = 0 then 0
            else let q = 2 powi (\<lfloor>log 2 \<bar>x\<bar>\<rfloor> - 52) in q * of_int (round_even (x / q)))"

text \<open>The constant \<open>M_PI\<close> of \<open>cmath\<close>: the double nearest to \<open>pi\<close>.\<close>

definition M_PI :: real where
  "M_PI = 884279719003555 / 2 ^ 48"

text \<open>
  \<open>tangentLine\<close>, rounded: the argument \<open>a * a + b * b - m_turningRadius * m_turningRadius\<close>
  of \<open>std::sqrt\<close>, and the divisor of the branch taken, for doubles \<open>a\<close> and \<open>b\<close>.
\<close>

definition tangentLine_radicand_double :: "config \<Rightarrow> real \<Rightarrow> real \<Rightarrow> real" where
  "tangentLine_radicand_double cfg a b =
     rnd (rnd (rnd (a * a) + rnd (b * b)) - rnd (turningRadius cfg * turningRadius cfg))"

definition tangentLine_divisor_double :: "config \<Rightarrow> real \<Rightarrow> real" where
  "tangentLine_divisor_double cfg b =
     (if \<bar>rnd (b + turningRadius cfg)\<bar> < epsilon then rnd (b - turningRadius cfg)
      else rnd (b + turningRadius cfg))"

text \<open>
  \<open>generatePath\<close>, rounded, as far as the loop variable of the arc loop goes: the
  adjustment of the stop angle by \<open>2 * M_PI\<close>, and the loop
  \<open>for (double i = startAngle; std::abs(i - stopAngle) > 2 * angleIncrement; i += dir * angleIncrement)\<close>.
  The loop returns the value of \<open>i\<close> at which it ends and the values of \<open>i\<close> for which the
  body has run, in order (at each of them one sample is appended). If the loop does not
  end, the result is \<open>None\<close>.
\<close>

definition stop_angle_double :: "Dir \<Rightarrow> real \<Rightarrow> real \<Rightarrow> real" where
  "stop_angle_double dir startAngle stopAngle =
     (if dir = Left \<and> stopAngle < startAngle then rnd (stopAngle + rnd (2 * M_PI))
      else if dir = Right \<and> stopAngle > startAngle then rnd (stopAngle - rnd (2 * M_PI))
      else stopAngle)"

partial_function (option) arc_loop_double ::
  "Dir \<Rightarrow> real \<Rightarrow> real \<Rightarrow> real \<Rightarrow> real list \<Rightarrow> (real \<times> real list) option" where
  "arc_loop_double dir stopAngle angleIncrement i as =
     (if \<bar>rnd (i - stopAngle)\<bar> > rnd (2 * angleIncrement)
      then arc_loop_double dir stopAngle angleIncrement
             (rnd (i + rnd (dir_value dir * angleIncrement))) (as @ [i])
      else Some (i, as))"

text \<open>
  \<open>std::pow(x, 2)\<close>: the square of \<open>x\<close>, correctly rounded (\<open>x * x\<close>, which is what compilers
  make of the call, is the same number).
\<close>

definition pow2_double :: "real \<Rightarrow> real" where
  "pow2_double x = rnd (x * x)"

text \<open>
  \<open>turningCenter\<close>, rounded. \<open>sin(theta_q)\<close> and \<open>cos(theta_q)\<close> come from the C library,
  which IEEE 754 does not bind to the last bit: the doubles they return are the parameters
  \<open>sin_theta\<close> and \<open>cos_theta\<close>.
\<close>

definition turningCenter_double ::
  "config \<Rightarrow> real \<Rightarrow> real \<Rightarrow> real \<Rightarrow> real \<Rightarrow> real \<Rightarrow> real \<Rightarrow> real \<times> real" where
  "turningCenter_double cfg x_q y_q sin_theta cos_theta x_n y_n =
     (let x_cr1 = rnd (x_q + rnd (sin_theta * turningRadius cfg));
          y_cr1 = rnd (y_q - rnd (cos_theta * turningRadius cfg));
          x_cr2 = rnd (x_q - rnd (sin_theta * turningRadius cfg));
          y_cr2 = rnd (y_q + rnd (cos_theta * turningRadius cfg))
      in if rnd (pow2_double (rnd (x_n - x_cr1)) + pow2_double (rnd (y_n - y_cr1)))
            < rnd (pow2_double (rnd (x_n - x_cr2)) + pow2_double (rnd (y_n - y_cr2)))
         then (x_cr1, y_cr1) else (x_cr2, y_cr2))"

text \<open>
  \<open>makePath\<close> and \<open>getTargetHeading\<close> with the rounding of the turning-circle centre and of
  the reachability check; the library's \<open>sin\<close> and \<open>cos\<close> are the parameters \<open>sin_d\<close> and
  \<open>cos_d\<close>. What follows the check is taken over from the idealised embedding: the
  statements about these two functions concern the returned flag, what a \<open>false\<close> return
  leaves behind, and, of a \<open>true\<close> return, only that the path ends with the goal.
\<close>

definition makePath_double ::
  "config \<Rightarrow> (real \<Rightarrow> real) \<Rightarrow> (real \<Rightarrow> real) \<Rightarrow> (nat \<Rightarrow> time) \<Rightarrow> (quaternion \<Rightarrow> real) \<Rightarrow>
   pose_stamped \<Rightarrow> pose_stamped \<Rightarrow> path \<Rightarrow> (bool \<times> path) option" where
  "makePath_double cfg sin_d cos_d clk getYaw start goal pth =
     (let x_q = ps_x start;
          y_q = ps_y start;
          theta_q = getYaw (orientation (ps_pose start));
          x_n = ps_x goal;
          y_n = ps_y goal;
          dir = turningDirection x_q y_q theta_q x_n y_n;
          (x_cr, y_cr) = turningCenter_double cfg x_q y_q (sin_d theta_q) (cos_d theta_q) x_n y_n
      in if rnd (sqrt (rnd (pow2_double (rnd (x_n - x_cr)) + pow2_double (rnd (y_n - y_cr)))))
            < turningRadius cfg
         then Some (False, pth)
         else
           (let (beta1, beta2) = tangentLine cfg x_n y_n x_cr y_cr;
                (x_lc, y_lc) = tangentPoint x_q y_q x_n y_n x_cr y_cr beta1 beta2 dir
            in case generatePath cfg clk x_q y_q x_n y_n x_cr y_cr x_lc y_lc dir goal pth of
                 None \<Rightarrow> None
               | Some pth' \<Rightarrow> Some (True, pth')))"

definition getTargetHeading_double ::
  "config \<Rightarrow> (real \<Rightarrow> real) \<Rightarrow> (real \<Rightarrow> real) \<Rightarrow> real \<Rightarrow> real \<Rightarrow> real \<Rightarrow> real \<Rightarrow> real \<Rightarrow> real \<Rightarrow>
   bool \<times> real" where
  "getTargetHeading_double cfg sin_d cos_d x_q y_q theta_q x_n y_n yawTarget =
     (let dir = turningDirection x_q y_q theta_q x_n y_n;
          (x_cr, y_cr) = turningCenter_double cfg x_q y_q (sin_d theta_q) (cos_d theta_q) x_n y_n
      in if rnd (sqrt (rnd (pow2_double (rnd (x_n - x_cr)) + pow2_double (rnd (y_n - y_cr)))))
            < turningRadius cfg
         then (False, yawTarget)
         else
           (let (beta1, beta2) = tangentLine cfg x_n y_n x_cr y_cr;
                (x_lc, y_lc) = tangentPoint x_q y_q x_n y_n x_cr y_cr beta1 beta2 dir
            in (True, atan2 (y_n - y_lc) (x_n - x_lc))))"

text \<open>A C library whose \<open>sin\<close> and \<open>cos\<close> are correctly rounded, for the examples.\<close>

definition sin_double :: "real \<Rightarrow> real" where
  "sin_double t = rnd (sin t)"

definition cos_double :: "real \<Rightarrow> real" where
  "cos_double t = rnd (cos t)"

section \<open>Notions used in the statements\<close>

text \<open>The distance from the target to the turning-circle centre that \<open>turningCenter\<close> selects.\<close>

definition target_center_distance ::
  "config \<Rightarrow> real \<Rightarrow> real \<Rightarrow> real \<Rightarrow> real \<Rightarrow> real \<Rightarrow> real" where
  "target_center_distance cfg x_q y_q theta_q x_n y_n =
     (let (x_cr, y_cr) = turningCenter cfg x_q y_q theta_q x_n y_n
      in sqrt ((x_n - x_cr)\<^sup>2 + (y_n - y_cr)\<^sup>2))"

text \<open>The tangent point that \<open>makePath\<close> and \<open>getTargetHeading\<close> hand on.\<close>

definition selected_tangent_point ::
  "config \<Rightarrow> real \<Rightarrow> real \<Rightarrow> real \<Rightarrow> real \<Rightarrow> real \<Rightarrow> real \<times> real" where
  "selected_tangent_point cfg x_q y_q theta_q x_n y_n =
     (let (x_cr, y_cr) = turningCenter cfg x_q y_q theta_q x_n y_n;
          (beta1, beta2) = tangentLine cfg x_n y_n x_cr y_cr
      in tangentPoint x_q y_q x_n y_n x_cr y_cr beta1 beta2
           (turningDirection x_q y_q theta_q x_n y_n))"

text \<open>
  The angle of the point \<open>(px, py)\<close> on the circle around \<open>(x_cr, y_cr)\<close>, wrapped into
  \<open>[0, 2 pi)\<close>, and the stop angle after the adjustment by a full turn.
\<close>

definition start_angle :: "real \<Rightarrow> real \<Rightarrow> real \<Rightarrow> real \<Rightarrow> real" where
  "start_angle px py x_cr y_cr =
     (let a = atan2 (py - y_cr) (px - x_cr) in if a < 0 then a + 2 * pi else a)"

definition stop_angle :: "Dir \<Rightarrow> real \<Rightarrow> real \<Rightarrow> real" where
  "stop_angle dir startAngle stopAngle =
     (if dir = Left \<and> stopAngle < startAngle then stopAngle + 2 * pi
      else if dir = Right \<and> stopAngle > startAngle then stopAngle - 2 * pi
      else stopAngle)"

text \<open>
  The value of the arc loop's variable \<open>i\<close> at the start of round \<open>k\<close>, the loop
  condition there, and the samples of the first \<open>N\<close> rounds, the clock having been read
  \<open>n\<close> times before.
\<close>

definition arc_angle :: "Dir \<Rightarrow> real \<Rightarrow> real \<Rightarrow> nat \<Rightarrow> real" where
  "arc_angle dir inc start k = start + dir_value dir * real k * inc"

definition arc_cond :: "real \<Rightarrow> real \<Rightarrow> real \<Rightarrow> Dir \<Rightarrow> nat \<Rightarrow> bool" where
  "arc_cond start stop inc dir k = (\<bar>arc_angle dir inc start k - stop\<bar> > 2 * inc)"

definition arc_samples ::
  "config \<Rightarrow> (nat \<Rightarrow> time) \<Rightarrow> real \<Rightarrow> real \<Rightarrow> Dir \<Rightarrow> real \<Rightarrow> real \<Rightarrow> nat \<Rightarrow> nat \<Rightarrow>
   pose_stamped list" where
  "arc_samples cfg clk x_cr y_cr dir inc start n N =
     map (\<lambda>k. sample_point (clk (n + k))
                 (x_cr + cos (arc_angle dir inc start k) * turningRadius cfg)
                 (y_cr + sin (arc_angle dir inc start k) * turningRadius cfg)) [0..<N]"

text \<open>The same for the line loop, whose variable \<open>i\<close> starts at \<open>i\<close> and counts up by one.\<close>

definition line_cond :: "config \<Rightarrow> real \<Rightarrow> real \<Rightarrow> real \<Rightarrow> nat \<Rightarrow> bool" where
  "line_cond cfg dx dx_norm i k =
     (\<bar>(i + real k) * pathResolution cfg * dx_norm - dx\<bar> > 2 * pathResolution cfg)"

definition line_samples ::
  "config \<Rightarrow> (nat \<Rightarrow> time) \<Rightarrow> real \<Rightarrow> real \<Rightarrow> real \<Rightarrow> real \<Rightarrow> real \<Rightarrow> nat \<Rightarrow> nat \<Rightarrow>
   pose_stamped list" where
  "line_samples cfg clk x_lc y_lc dx_norm dy_norm i n M =
     map (\<lambda>k. sample_point (clk (n + k))
                 (x_lc + (i + real k) * pathResolution cfg * dx_norm)
                 (y_lc + (i + real k) * pathResolution cfg * dy_norm)) [0..<M]"

text \<open>
  A stand-in for \<open>tf::getYaw\<close> in the examples: the yaw of a unit quaternion. A start
  pose, a goal and a path message for the examples.
\<close>

definition yaw_of :: "quaternion \<Rightarrow> real" where
  "yaw_of q = atan2 (2 * (q_w q * q_z q + q_x q * q_y q))
                    (1 - 2 * (q_y q * q_y q + q_z q * q_z q))"

definition pose_at :: "real \<Rightarrow> real \<Rightarrow> pose_stamped" where
  "pose_at px py =
     \<lparr>ps_header = \<lparr>seq = 0, stamp = 0, frame_id = ''map''\<rparr>,
      ps_pose = \<lparr>position = \<lparr>pos_x = px, pos_y = py, pos_z = 0\<rparr>,
                 orientation = \<lparr>q_x = 0, q_y = 0, q_z = 0, q_w = 1\<rparr>\<rparr>\<rparr>"

definition empty_path :: path where
  "empty_path = \<lparr>path_header = \<lparr>seq = 0, stamp = 0, frame_id = []\<rparr>, poses = []\<rparr>"


text \<open>The squared Euclidean distance of two points.\<close>

definition sq_dist :: "real \<times> real \<Rightarrow> real \<times> real \<Rightarrow> real" where
  "sq_dist p q = (fst p - fst q)\<^sup>2 + (snd p - snd q)\<^sup>2"

text \<open>
  The squared distance as the source computes it, the two candidate centres as
  \<open>turningCenter\<close> computes them, the distance that the reachability check compares with
  the turning radius, and the exact distance from the target to the centre selected.
\<close>

definition sq_dist_double :: "real \<times> real \<Rightarrow> real \<times> real \<Rightarrow> real" where
  "sq_dist_double p q = rnd (pow2_double (rnd (fst p - fst q)) + pow2_double (rnd (snd p - snd q)))"

definition center_candidates_double ::
  "config \<Rightarrow> real \<Rightarrow> real \<Rightarrow> real \<Rightarrow> real \<Rightarrow> (real \<times> real) \<times> (real \<times> real)" where
  "center_candidates_double cfg x_q y_q sin_theta cos_theta =
     ((rnd (x_q + rnd (sin_theta * turningRadius cfg)), rnd (y_q - rnd (cos_theta * turningRadius cfg))),
      (rnd (x_q - rnd (sin_theta * turningRadius cfg)), rnd (y_q + rnd (cos_theta * turningRadius cfg))))"

definition target_center_distance_double ::
  "config \<Rightarrow> real \<Rightarrow> real \<Rightarrow> real \<Rightarrow> real \<Rightarrow> real \<Rightarrow> real \<Rightarrow> real" where
  "target_center_distance_double cfg x_q y_q sin_theta cos_theta x_n y_n =
     rnd (sqrt (sq_dist_double (x_n, y_n)
                  (turningCenter_double cfg x_q y_q sin_theta cos_theta x_n y_n)))"

definition exact_center_distance ::
  "config \<Rightarrow> real \<Rightarrow> real \<Rightarrow> real \<Rightarrow> real \<Rightarrow> real \<Rightarrow> real \<Rightarrow> real" where
  "exact_center_distance cfg x_q y_q sin_theta cos_theta x_n y_n =
     sqrt (sq_dist (x_n, y_n) (turningCenter_double cfg x_q y_q sin_theta cos_theta x_n y_n))"

text \<open>
  The candidate tangent point of one tangent angle: the circle-line intersection formula
  applied to the target and a second point of the line through it at angle \<open>beta\<close>, in
  the frame centred at the circle centre, and moved back.
\<close>

definition tangent_candidate :: "real \<Rightarrow> real \<Rightarrow> real \<Rightarrow> real \<Rightarrow> real \<Rightarrow> real \<times> real" where
  "tangent_candidate x_n y_n x_cr y_cr beta =
     (let x2 = x_n - x_cr;
          y2 = y_n - y_cr;
          x1 = (x_n + cos beta) - x_cr;
          y1 = (y_n + sin beta) - y_cr;
          dx = x2 - x1;
          dy = y2 - y1;
          dr = sqrt (dx * dx + dy * dy);
          D = x1 * y2 - x2 * y1
      in (D * dy / (dr * dr) + x_cr, - D * dx / (dr * dr) + y_cr))"

text \<open>
  The signed angle from the vector (robot position - centre) to the vector (\<open>p\<close> -
  centre), from the cross and the dot product, wrapped into \<open>[0, 2 pi)\<close>.
\<close>

definition wrapped_angle :: "real \<Rightarrow> real \<Rightarrow> real \<Rightarrow> real \<Rightarrow> real \<times> real \<Rightarrow> real" where
  "wrapped_angle x_q y_q x_cr y_cr p =
     (let v = (x_q - x_cr, y_q - y_cr);
          w = (fst p - x_cr, snd p - y_cr);
          angle = atan2 (fst v * snd w - snd v * fst w) (fst v * fst w + snd v * snd w)
      in if angle < 0 then angle + 2 * pi else angle)"

text \<open>
  The tangency condition of \<open>tangentLine\<close>'s comment for the angle \<open>beta\<close>, with
  \<open>a = x_cr - x_n\<close> and \<open>b = y_n - y_cr\<close>.
\<close>

definition tangency :: "real \<Rightarrow> real \<Rightarrow> real \<Rightarrow> real \<Rightarrow> bool" where
  "tangency R a b beta = ((a * sin beta + b * cos beta)\<^sup>2 = R\<^sup>2)"

text \<open>The Euclidean distance of two path points, and paths whose consecutive points are at most \<open>d\<close> apart.\<close>

definition sample_distance :: "pose_stamped \<Rightarrow> pose_stamped \<Rightarrow> real" where
  "sample_distance p q = sqrt ((ps_x p - ps_x q)\<^sup>2 + (ps_y p - ps_y q)\<^sup>2)"

fun spaced_within :: "real \<Rightarrow> pose_stamped list \<Rightarrow> bool" where
  "spaced_within d (p # q # ps) = (sample_distance p q \<le> d \<and> spaced_within d (q # ps))"
| "spaced_within d ps = True"

text \<open>
  Paths whose consecutive points are all related by \<open>P\<close>; turning about a centre in the
  direction \<open>dir\<close> (the sign of the cross product of the two radii); advancing along a
  vector (the sign of the scalar product of the step with it).
\<close>

fun consecutive :: "(pose_stamped \<Rightarrow> pose_stamped \<Rightarrow> bool) \<Rightarrow> pose_stamped list \<Rightarrow> bool" where
  "consecutive P (p # q # ps) = (P p q \<and> consecutive P (q # ps))"
| "consecutive P ps = True"

definition turns_with :: "Dir \<Rightarrow> real \<Rightarrow> real \<Rightarrow> pose_stamped \<Rightarrow> pose_stamped \<Rightarrow> bool" where
  "turns_with dir x_cr y_cr p q =
     (0 < dir_value dir * ((ps_x p - x_cr) * (ps_y q - y_cr) - (ps_y p - y_cr) * (ps_x q - x_cr)))"

definition advances_along :: "real \<Rightarrow> real \<Rightarrow> pose_stamped \<Rightarrow> pose_stamped \<Rightarrow> bool" where
  "advances_along vx vy p q = (0 < (ps_x q - ps_x p) * vx + (ps_y q - ps_y p) * vy)"

text \<open>
  Angles that advance in the direction \<open>dir\<close>: each differs from its predecessor, in that
  direction, by between three quarters and five quarters of \<open>inc\<close>.
\<close>

fun advancing :: "Dir \<Rightarrow> real \<Rightarrow> real list \<Rightarrow> bool" where
  "advancing dir inc (a # b # as) =
     (3 * inc / 4 \<le> dir_value dir * (b - a) \<and> dir_value dir * (b - a) \<le> 5 * inc / 4
      \<and> advancing dir inc (b # as))"
| "advancing dir inc as = True"

text \<open>A clock for the examples, and the poses of a successful \<open>makePath\<close> (none otherwise).\<close>

definition steady_clock :: "nat \<Rightarrow> time" where
  "steady_clock n = n"

definition path_of :: "(bool \<times> path) option \<Rightarrow> pose_stamped list" where
  "path_of r = (case r of Some (True, p) \<Rightarrow> poses p | _ \<Rightarrow> [])"

section \<open>Auxiliary facts\<close>

subsection \<open>Angles\<close>

lemma atan2_bounds: "- pi < atan2 y x \<and> atan2 y x \<le> pi"
proof -
  have b: "- (pi / 2) < arctan (y / x)" "arctan (y / x) < pi / 2"
    using arctan_lbound [of "y / x"] arctan_ubound [of "y / x"] by linarith+
  consider "0 < x" | "x < 0" "0 \<le> y" | "x < 0" "y < 0" | "x = 0"
    by linarith
  then show ?thesis
  proof cases
    case 1
    then have "atan2 y x = arctan (y / x)" by (simp add: atan2_def)
    with b pi_gt_zero show ?thesis by linarith
  next
    case 2
    then have "y / x \<le> 0" by (simp add: divide_nonneg_neg)
    then have "arctan (y / x) \<le> 0" by simp
    moreover from 2 have "atan2 y x = arctan (y / x) + pi" by (simp add: atan2_def)
    ultimately show ?thesis using b pi_gt_zero by linarith
  next
    case 3
    then have "0 < y / x" by (simp add: divide_neg_neg)
    then have "0 < arctan (y / x)" by simp
    moreover from 3 have "atan2 y x = arctan (y / x) - pi" by (simp add: atan2_def)
    ultimately show ?thesis using b pi_gt_zero by linarith
  next
    case 4
    consider "0 < y" | "y < 0" | "y = 0" by linarith
    then show ?thesis
    proof cases
      case 1
      with 4 have "atan2 y x = pi / 2" by (simp add: atan2_def)
      then show ?thesis using pi_gt_zero by linarith
    next
      case 2
      with 4 have "atan2 y x = - (pi / 2)" by (simp add: atan2_def)
      then show ?thesis using pi_gt_zero by linarith
    next
      case 3
      with 4 have "atan2 y x = 0" by (simp add: atan2_def)
      then show ?thesis using pi_gt_zero by linarith
    qed
  qed
qed

lemma arc_loop_closed:
  "(\<forall>k<N. arc_cond start stop inc dir k) \<Longrightarrow> \<not> arc_cond start stop inc dir N \<Longrightarrow>
   arc_loop cfg clk x_cr y_cr dir stop inc start n ps =
     Some (n + N, ps @ arc_samples cfg clk x_cr y_cr dir inc start n N)"
proof (induction N arbitrary: start n ps)
  case 0
  then show ?case
    by (subst arc_loop.simps) (simp add: arc_cond_def arc_angle_def arc_samples_def)
next
  case (Suc N)
  let ?s = "start + dir_value dir * inc"
  have shift: "arc_cond ?s stop inc dir k = arc_cond start stop inc dir (Suc k)" for k
    by (simp add: arc_cond_def arc_angle_def algebra_simps)
  from Suc.prems have c0: "\<bar>start - stop\<bar> > 2 * inc"
    by (auto simp: arc_cond_def arc_angle_def dest: spec [of _ 0])
  have a: "\<forall>k<N. arc_cond ?s stop inc dir k" using Suc.prems(1) by (simp add: shift)
  have b: "\<not> arc_cond ?s stop inc dir N" using Suc.prems(2) by (simp add: shift)
  have samples: "arc_samples cfg clk x_cr y_cr dir inc start n (Suc N) =
      sample_point (clk n) (x_cr + cos start * turningRadius cfg) (y_cr + sin start * turningRadius cfg)
      # arc_samples cfg clk x_cr y_cr dir inc ?s (Suc n) N"
    unfolding arc_samples_def arc_angle_def
    by (simp only: upt_conv_Cons [of 0 "Suc N"] map_Suc_upt [symmetric] list.map)
       (simp add: algebra_simps)
  show ?case
    by (subst arc_loop.simps) (simp add: c0 Suc.IH [OF a b] samples)
qed

lemma arc_stop_exists:
  assumes inc: "0 < inc" and ahead: "0 \<le> dir_value dir * (stop - start)"
  shows "\<exists>N. (\<forall>k<N. arc_cond start stop inc dir k) \<and> \<not> arc_cond start stop inc dir N
            \<and> (\<forall>k<N. 2 * inc < dir_value dir * (stop - start) - real k * inc)"
proof -
  define D where "D = dir_value dir * (stop - start)"
  have sq: "dir_value dir * dir_value dir = 1" by (cases dir) (simp_all add: dir_value_def)
  have cond: "arc_cond start stop inc dir k \<longleftrightarrow> \<bar>real k * inc - D\<bar> > 2 * inc" for k
  proof -
    have "start + dir_value dir * real k * inc - stop = dir_value dir * (real k * inc - D)"
      unfolding D_def using sq by (cases dir) (simp_all add: dir_value_def algebra_simps)
    moreover have "\<bar>dir_value dir * z\<bar> = \<bar>z\<bar>" for z
      by (cases dir) (simp_all add: dir_value_def)
    ultimately show ?thesis by (simp add: arc_cond_def arc_angle_def)
  qed
  define K where "K = nat \<lceil>D / inc\<rceil>"
  have "0 \<le> D" using ahead by (simp add: D_def)
  then have "0 \<le> D / inc" using inc by simp
  then have K1: "D / inc \<le> real K" and K2: "real K < D / inc + 1"
    unfolding K_def by linarith+
  from K1 K2 inc have "D \<le> real K * inc" "real K * inc < D + inc"
    by (simp_all add: field_simps)
  then have ex: "\<not> arc_cond start stop inc dir K"
    using inc by (simp add: cond)
  define N where "N = (LEAST k. \<not> arc_cond start stop inc dir k)"
  have N: "\<not> arc_cond start stop inc dir N" unfolding N_def using ex by (rule LeastI)
  have below: "arc_cond start stop inc dir k" if "k < N" for k
    using not_less_Least [of k "\<lambda>k. \<not> arc_cond start stop inc dir k"] that
    by (auto simp: N_def)
  have mono: "2 * inc < D - real k * inc" if "k < N" for k
    using that
  proof (induction k)
    case 0
    then have "arc_cond start stop inc dir 0" by (rule below)
    with \<open>0 \<le> D\<close> show ?case by (simp add: cond)
  next
    case (Suc k)
    then have "2 * inc < D - real k * inc" by simp
    moreover have "\<bar>real (Suc k) * inc - D\<bar> > 2 * inc" using below [OF Suc.prems] by (simp add: cond)
    ultimately show ?case using inc by (simp add: algebra_simps)
  qed
  show ?thesis using N below mono by (auto simp: D_def)
qed


lemma line_loop_closed:
  "(\<forall>k<M. line_cond cfg dx dx_norm i k) \<Longrightarrow> \<not> line_cond cfg dx dx_norm i M \<Longrightarrow>
   line_loop cfg clk x_lc y_lc dx dx_norm dy_norm i n ps =
     Some (n + M, ps @ line_samples cfg clk x_lc y_lc dx_norm dy_norm i n M)"
proof (induction M arbitrary: i n ps)
  case 0
  then show ?case
    by (subst line_loop.simps) (simp add: line_cond_def line_samples_def)
next
  case (Suc M)
  have shift: "line_cond cfg dx dx_norm (i + 1) k = line_cond cfg dx dx_norm i (Suc k)" for k
    by (simp add: line_cond_def algebra_simps)
  from Suc.prems have c0: "\<bar>i * pathResolution cfg * dx_norm - dx\<bar> > 2 * pathResolution cfg"
    by (auto simp: line_cond_def dest: spec [of _ 0])
  have a: "\<forall>k<M. line_cond cfg dx dx_norm (i + 1) k" using Suc.prems(1) by (simp add: shift)
  have b: "\<not> line_cond cfg dx dx_norm (i + 1) M" using Suc.prems(2) by (simp add: shift)
  have samples: "line_samples cfg clk x_lc y_lc dx_norm dy_norm i n (Suc M) =
      sample_point (clk n) (x_lc + i * pathResolution cfg * dx_norm)
                           (y_lc + i * pathResolution cfg * dy_norm)
      # line_samples cfg clk x_lc y_lc dx_norm dy_norm (i + 1) (Suc n) M"
    unfolding line_samples_def
    by (simp only: upt_conv_Cons [of 0 "Suc M"] map_Suc_upt [symmetric] list.map)
       (simp add: algebra_simps)
  show ?case
    by (subst line_loop.simps) (simp add: c0 Suc.IH [OF a b] samples)
qed

lemma line_stop_exists:
  assumes s: "0 < pathResolution cfg"
  shows "\<exists>M. (\<forall>k<M. line_cond cfg dx (dx / sqrt (dx * dx + dy * dy)) 0 k)
            \<and> \<not> line_cond cfg dx (dx / sqrt (dx * dx + dy * dy)) 0 M"
proof -
  define L where "L = sqrt (dx * dx + dy * dy)"
  define r where "r = pathResolution cfg"
  have r: "0 < r" using s by (simp add: r_def)
  let ?c = "line_cond cfg dx (dx / L) 0"
  have ex: "\<exists>K. \<not> ?c K"
  proof (cases "dx = 0")
    case True
    then have "\<not> ?c 0" using s by (simp add: line_cond_def)
    then show ?thesis ..
  next
    case False
    then have "0 < dx * dx" by (auto simp: zero_less_mult_iff)
    moreover have "0 \<le> dy * dy" by simp
    ultimately have "0 < dx * dx + dy * dy" by linarith
    then have L: "0 < L" by (simp add: L_def)
    have "dx * dx \<le> dx * dx + dy * dy" by simp
    then have "sqrt (dx * dx) \<le> L" unfolding L_def by (rule real_sqrt_le_mono)
    then have dxL: "\<bar>dx\<bar> \<le> L" by simp
    define K where "K = nat \<lceil>L / r\<rceil>"
    have "0 \<le> L / r" using L r by simp
    then have K1: "L / r \<le> real K" and K2: "real K < L / r + 1"
      unfolding K_def by linarith+
    from K1 K2 r have K3: "L \<le> real K * r" "real K * r < L + r"
      by (simp_all add: field_simps)
    have eq: "real K * r * (dx / L) - dx = dx * ((real K * r - L) / L)"
      using L by (simp add: field_simps)
    define q where "q = (real K * r - L) / L"
    have "0 \<le> q" using K3 L by (simp add: q_def)
    moreover have "q < r / L" using K3 L by (simp add: q_def divide_strict_right_mono)
    ultimately have "\<bar>q\<bar> \<le> r / L" by simp
    then have "\<bar>dx\<bar> * \<bar>q\<bar> \<le> \<bar>dx\<bar> * (r / L)" by (intro mult_left_mono) simp_all
    then have "\<bar>dx * ((real K * r - L) / L)\<bar> \<le> \<bar>dx\<bar> * (r / L)"
      by (simp add: abs_mult q_def [symmetric])
    also have "\<dots> = r * (\<bar>dx\<bar> / L)" by simp
    also have "\<dots> \<le> r * 1" using dxL L r by (intro mult_left_mono) simp_all
    also have "\<dots> \<le> 2 * r" using r by simp
    finally have "\<bar>real K * r * (dx / L) - dx\<bar> \<le> 2 * r" unfolding eq .
    then have "\<not> ?c K" by (simp add: line_cond_def r_def)
    then show ?thesis ..
  qed
  define M where "M = (LEAST k. \<not> ?c k)"
  from ex obtain K where "\<not> ?c K" ..
  then have "\<not> ?c M" unfolding M_def by (rule LeastI)
  moreover have "?c k" if "k < M" for k
    using not_less_Least [of k "\<lambda>k. \<not> ?c k"] that by (auto simp: M_def)
  ultimately show ?thesis unfolding L_def by blast
qed




lemma start_angle_bounds: "0 \<le> start_angle x_q y_q x_cr y_cr \<and> start_angle x_q y_q x_cr y_cr < 2 * pi"
  using atan2_bounds [of "y_q - y_cr" "x_q - x_cr"] pi_gt_zero
  by (auto simp: start_angle_def Let_def)

lemma stop_angle_ahead:
  assumes "0 \<le> a" "a < 2 * pi" "0 \<le> b" "b < 2 * pi"
  shows "0 \<le> dir_value dir * (stop_angle dir a b - a)"
    and "dir_value dir * (stop_angle dir a b - a) < 2 * pi"
  using assms pi_gt_zero by (cases dir; simp add: stop_angle_def dir_value_def)+

lemma generatePath_eq:
  "generatePath cfg clk x_q y_q x_n y_n x_cr y_cr x_lc y_lc dir goal pth =
     (case arc_loop cfg clk x_cr y_cr dir
             (stop_angle dir (start_angle x_q y_q x_cr y_cr) (start_angle x_lc y_lc x_cr y_cr))
             (pathResolution cfg / turningRadius cfg) (start_angle x_q y_q x_cr y_cr) 1 [] of
        None \<Rightarrow> None
      | Some (n, ps) \<Rightarrow>
          (case line_loop cfg clk x_lc y_lc (x_n - x_lc)
                  ((x_n - x_lc) / sqrt ((x_n - x_lc) * (x_n - x_lc) + (y_n - y_lc) * (y_n - y_lc)))
                  ((y_n - y_lc) / sqrt ((x_n - x_lc) * (x_n - x_lc) + (y_n - y_lc) * (y_n - y_lc)))
                  0 n ps of
             None \<Rightarrow> None
           | Some (n', ps') \<Rightarrow>
               Some (pth\<lparr>path_header := (path_header pth)\<lparr>stamp := clk 0, frame_id := ''map''\<rparr>,
                          poses := ps' @ [goal]\<rparr>)))"
  unfolding generatePath_def start_angle_def stop_angle_def Let_def
  by (simp split: option.split split del: if_split)

lemma generatePath_closed:
  fixes cfg :: config and x_q y_q x_n y_n x_cr y_cr x_lc y_lc :: real and dir :: Dir
  assumes R: "0 < turningRadius cfg" and s: "0 < pathResolution cfg"
  defines "inc \<equiv> pathResolution cfg / turningRadius cfg"
  defines "a0 \<equiv> start_angle x_q y_q x_cr y_cr"
  defines "a1 \<equiv> stop_angle dir (start_angle x_q y_q x_cr y_cr) (start_angle x_lc y_lc x_cr y_cr)"
  defines "dxn \<equiv> (x_n - x_lc) / sqrt ((x_n - x_lc) * (x_n - x_lc) + (y_n - y_lc) * (y_n - y_lc))"
  defines "dyn \<equiv> (y_n - y_lc) / sqrt ((x_n - x_lc) * (x_n - x_lc) + (y_n - y_lc) * (y_n - y_lc))"
  shows "\<exists>N M. generatePath cfg clk x_q y_q x_n y_n x_cr y_cr x_lc y_lc dir goal pth =
            Some (pth\<lparr>path_header := (path_header pth)\<lparr>stamp := clk 0, frame_id := ''map''\<rparr>,
                       poses := arc_samples cfg clk x_cr y_cr dir inc a0 1 N
                                @ line_samples cfg clk x_lc y_lc dxn dyn 0 (1 + N) M @ [goal]\<rparr>)
          \<and> (\<forall>k<N. arc_cond a0 a1 inc dir k) \<and> \<not> arc_cond a0 a1 inc dir N
          \<and> (\<forall>k<N. 2 * inc < dir_value dir * (a1 - a0) - real k * inc)
          \<and> (\<forall>k<M. line_cond cfg (x_n - x_lc) dxn 0 k) \<and> \<not> line_cond cfg (x_n - x_lc) dxn 0 M"
proof -
  have inc: "0 < inc" using R s by (simp add: inc_def)
  have ahead: "0 \<le> dir_value dir * (a1 - a0)"
    unfolding a0_def a1_def
    using stop_angle_ahead(1) start_angle_bounds by blast
  from arc_stop_exists [OF inc ahead] obtain N where
    N: "\<forall>k<N. arc_cond a0 a1 inc dir k" "\<not> arc_cond a0 a1 inc dir N"
       "\<forall>k<N. 2 * inc < dir_value dir * (a1 - a0) - real k * inc" by blast
  from line_stop_exists [OF s, of "x_n - x_lc" "y_n - y_lc"] obtain M where
    M: "\<forall>k<M. line_cond cfg (x_n - x_lc) dxn 0 k" "\<not> line_cond cfg (x_n - x_lc) dxn 0 M"
    unfolding dxn_def by blast
  have arc: "arc_loop cfg clk x_cr y_cr dir a1 inc a0 1 [] =
      Some (1 + N, arc_samples cfg clk x_cr y_cr dir inc a0 1 N)"
    using arc_loop_closed [OF N(1,2), of cfg clk x_cr y_cr 1 "[]"] by simp
  have line: "line_loop cfg clk x_lc y_lc (x_n - x_lc) dxn dyn 0 (1 + N) ps =
      Some (1 + N + M, ps @ line_samples cfg clk x_lc y_lc dxn dyn 0 (1 + N) M)" for ps
    using line_loop_closed [OF M, of clk x_lc y_lc dyn "1 + N" ps] by simp
  have "generatePath cfg clk x_q y_q x_n y_n x_cr y_cr x_lc y_lc dir goal pth =
            Some (pth\<lparr>path_header := (path_header pth)\<lparr>stamp := clk 0, frame_id := ''map''\<rparr>,
                       poses := arc_samples cfg clk x_cr y_cr dir inc a0 1 N
                                @ line_samples cfg clk x_lc y_lc dxn dyn 0 (1 + N) M @ [goal]\<rparr>)"
    using arc line unfolding generatePath_eq a0_def a1_def inc_def dxn_def dyn_def
    by simp
  with N M show ?thesis by blast
qed



lemma makePath_eq:
  "makePath cfg clk getYaw start goal pth =
     (if target_center_distance cfg (ps_x start) (ps_y start) (getYaw (orientation (ps_pose start)))
           (ps_x goal) (ps_y goal) < turningRadius cfg
      then Some (False, pth)
      else map_option (Pair True)
             (generatePath cfg clk (ps_x start) (ps_y start) (ps_x goal) (ps_y goal)
                (fst (turningCenter cfg (ps_x start) (ps_y start)
                        (getYaw (orientation (ps_pose start))) (ps_x goal) (ps_y goal)))
                (snd (turningCenter cfg (ps_x start) (ps_y start)
                        (getYaw (orientation (ps_pose start))) (ps_x goal) (ps_y goal)))
                (fst (selected_tangent_point cfg (ps_x start) (ps_y start)
                        (getYaw (orientation (ps_pose start))) (ps_x goal) (ps_y goal)))
                (snd (selected_tangent_point cfg (ps_x start) (ps_y start)
                        (getYaw (orientation (ps_pose start))) (ps_x goal) (ps_y goal)))
                (turningDirection (ps_x start) (ps_y start)
                        (getYaw (orientation (ps_pose start))) (ps_x goal) (ps_y goal))
                goal pth))"
  unfolding makePath_def target_center_distance_def selected_tangent_point_def Let_def
    case_prod_beta
  by (simp split: option.split)

lemma getTargetHeading_eq:
  "getTargetHeading cfg x_q y_q theta_q x_n y_n yawTarget =
     (if target_center_distance cfg x_q y_q theta_q x_n y_n < turningRadius cfg
      then (False, yawTarget)
      else (True, atan2 (y_n - snd (selected_tangent_point cfg x_q y_q theta_q x_n y_n))
                        (x_n - fst (selected_tangent_point cfg x_q y_q theta_q x_n y_n))))"
  unfolding getTargetHeading_def target_center_distance_def selected_tangent_point_def Let_def
    case_prod_beta
  by simp

lemma makePath_closed:
  assumes "0 < turningRadius cfg" "0 < pathResolution cfg"
    and "\<not> target_center_distance cfg (ps_x start) (ps_y start)
             (getYaw (orientation (ps_pose start))) (ps_x goal) (ps_y goal) < turningRadius cfg"
  shows "\<exists>ps. makePath cfg clk getYaw start goal pth =
            Some (True, pth\<lparr>path_header := (path_header pth)\<lparr>stamp := clk 0, frame_id := ''map''\<rparr>,
                             poses := ps @ [goal]\<rparr>)"
proof -
  from generatePath_closed [OF assms(1,2)]
  have "\<exists>ps. generatePath cfg clk x_q y_q x_n y_n x_cr y_cr x_lc y_lc dir goal pth =
          Some (pth\<lparr>path_header := (path_header pth)\<lparr>stamp := clk 0, frame_id := ''map''\<rparr>,
                     poses := ps @ [goal]\<rparr>)" for x_q y_q x_n y_n x_cr y_cr x_lc y_lc dir
    by (metis append.assoc)
  then show ?thesis using assms(3) unfolding makePath_eq by (auto simp del: append_assoc) 
qed

lemma sample_point_xy [simp]: "ps_x (sample_point t px py) = px" "ps_y (sample_point t px py) = py"
  by (simp_all add: sample_point_def)

lemma on_circle:
  "sqrt ((x_cr + cos i * R - x_cr)\<^sup>2 + (y_cr + sin i * R - y_cr)\<^sup>2) = \<bar>R\<bar>"
proof -
  have e: "a * c + a * s = a * (s + c)" for a c s :: real by (simp add: algebra_simps)
  have "(x_cr + cos i * R - x_cr)\<^sup>2 + (y_cr + sin i * R - y_cr)\<^sup>2
        = R\<^sup>2 * (cos i)\<^sup>2 + R\<^sup>2 * (sin i)\<^sup>2"
    by (simp add: power_mult_distrib mult.commute)
  also have "\<dots> = R\<^sup>2 * ((sin i)\<^sup>2 + (cos i)\<^sup>2)" by (rule e)
  also have "\<dots> = R\<^sup>2" by simp
  finally show ?thesis by simp
qed

lemma arc_loop_on_circle:
  assumes run: "arc_loop cfg clk x_cr y_cr dir stopAngle inc i n ps = Some r"
  shows "0 < turningRadius cfg \<longrightarrow>
   (\<exists>ys. snd r = ps @ ys \<and>
      (\<forall>p\<in>set ys. sqrt ((ps_x p - x_cr)\<^sup>2 + (ps_y p - y_cr)\<^sup>2) = turningRadius cfg))"
proof (rule arc_loop.raw_induct [OF _ run, where P = "\<lambda>cfg clk x_cr y_cr dir stopAngle inc i n ps r.
    0 < turningRadius cfg \<longrightarrow>
    (\<exists>ys. snd r = ps @ ys \<and>
      (\<forall>p\<in>set ys. sqrt ((ps_x p - x_cr)\<^sup>2 + (ps_y p - y_cr)\<^sup>2) = turningRadius cfg))"],
    goal_cases)
  case (1 loop cfg clk x_cr y_cr dir stopAngle inc i n ps r)
  note IH = 1(1) and body = 1(2)
  show ?case
  proof
    assume R: "0 < turningRadius cfg"
    let ?p = "sample_point (clk n) (x_cr + cos i * turningRadius cfg) (y_cr + sin i * turningRadius cfg)"
    show "\<exists>ys. snd r = ps @ ys \<and>
        (\<forall>p\<in>set ys. sqrt ((ps_x p - x_cr)\<^sup>2 + (ps_y p - y_cr)\<^sup>2) = turningRadius cfg)"
    proof (cases "2 * inc < \<bar>i - stopAngle\<bar>")
      case True
      with body have "loop cfg clk x_cr y_cr dir stopAngle inc
          (i + dir_value dir * inc) (Suc n) (ps @ [?p]) = Some r" by simp
      from IH [OF this] R obtain ys where
        ys: "snd r = (ps @ [?p]) @ ys"
          "\<forall>p\<in>set ys. sqrt ((ps_x p - x_cr)\<^sup>2 + (ps_y p - y_cr)\<^sup>2) = turningRadius cfg"
        by blast
      have "sqrt ((ps_x ?p - x_cr)\<^sup>2 + (ps_y ?p - y_cr)\<^sup>2) = turningRadius cfg"
        using on_circle [of x_cr i "turningRadius cfg" y_cr] R by simp
      with ys have "snd r = ps @ (?p # ys) \<and>
          (\<forall>p\<in>set (?p # ys). sqrt ((ps_x p - x_cr)\<^sup>2 + (ps_y p - y_cr)\<^sup>2) = turningRadius cfg)"
        by simp
      then show ?thesis by blast
    next
      case False
      with body have "snd r = ps" by auto
      then show ?thesis by simp
    qed
  qed
qed

lemma yaw_of_identity [simp]: "yaw_of (orientation (ps_pose (pose_at px py))) = 0"
  by (simp add: yaw_of_def pose_at_def atan2_def)

lemma pose_at_xy [simp]: "ps_x (pose_at px py) = px" "ps_y (pose_at px py) = py"
  by (simp_all add: pose_at_def)


lemma ex_center [simp]:
  "turningCenter \<lparr>turningRadius = 1, pathResolution = 7 / 8\<rparr> 0 0 0 (- 10) 2 = (0, 1)"
  by (simp add: turningCenter_def Let_def)

lemma ex_distance [simp]:
  "target_center_distance \<lparr>turningRadius = 1, pathResolution = 7 / 8\<rparr> 0 0 0 (- 10) 2 = sqrt 101"
  by (simp add: target_center_distance_def)

lemma ex_center_near [simp]:
  "turningCenter \<lparr>turningRadius = 1, pathResolution = 7 / 8\<rparr> 0 0 0 0 y = (if y < 0 then (0, - 1) else (0, 1))"
  by (simp add: turningCenter_def Let_def power2_eq_square algebra_simps)

lemma wrapped_angle_bounds:
  "0 \<le> wrapped_angle x_q y_q x_cr y_cr p \<and> wrapped_angle x_q y_q x_cr y_cr p < 2 * pi"
  using atan2_bounds [of "(x_q - x_cr) * (snd p - y_cr) - (y_q - y_cr) * (fst p - x_cr)"
      "(x_q - x_cr) * (fst p - x_cr) + (y_q - y_cr) * (snd p - y_cr)"] pi_gt_zero
  by (auto simp: wrapped_angle_def Let_def)

lemma tangentPoint_eq:
  "tangentPoint x_q y_q x_n y_n x_cr y_cr beta1 beta2 dir =
     (case dir of
        Left \<Rightarrow> if wrapped_angle x_q y_q x_cr y_cr (tangent_candidate x_n y_n x_cr y_cr beta1)
                   < wrapped_angle x_q y_q x_cr y_cr (tangent_candidate x_n y_n x_cr y_cr beta2)
                then tangent_candidate x_n y_n x_cr y_cr beta1
                else tangent_candidate x_n y_n x_cr y_cr beta2
      | Right \<Rightarrow> if wrapped_angle x_q y_q x_cr y_cr (tangent_candidate x_n y_n x_cr y_cr beta1)
                   > wrapped_angle x_q y_q x_cr y_cr (tangent_candidate x_n y_n x_cr y_cr beta2)
                then tangent_candidate x_n y_n x_cr y_cr beta1
                else tangent_candidate x_n y_n x_cr y_cr beta2)"
  unfolding tangentPoint_def tangent_candidate_def wrapped_angle_def Let_def fst_conv snd_conv
  by (rule refl)

lemma ex_candidates:
  "tangent_candidate (- 10) 2 0 1 (pi / 2) = (- 10, 1)"
  "tangent_candidate (- 10) 2 0 1 0 = (0, 2)"
  by (simp_all add: tangent_candidate_def Let_def)

lemma ex_wrapped:
  "wrapped_angle 0 0 0 1 (- 10, 1) = 3 * pi / 2"
  "wrapped_angle 0 0 0 1 (0, 2) = pi"
  by (simp_all add: wrapped_angle_def atan2_def Let_def)

lemma epsilon_pos: "0 < epsilon"
  by (simp add: epsilon_def)

subsection \<open>Tangent geometry and spacing\<close>

lemma cos_2arctan: "cos (2 * arctan t) = (1 - t\<^sup>2) / (1 + t\<^sup>2)"
proof -
  have pos: "0 < 1 + t\<^sup>2" by (simp add: add_pos_nonneg)
  have "cos (2 * arctan t) = (cos (arctan t))\<^sup>2 - (sin (arctan t))\<^sup>2" by (rule cos_double)
  also have "\<dots> = (1 / sqrt (1 + t\<^sup>2))\<^sup>2 - (t / sqrt (1 + t\<^sup>2))\<^sup>2"
    by (simp only: cos_arctan sin_arctan)
  also have "\<dots> = 1 / (1 + t\<^sup>2) - t\<^sup>2 / (1 + t\<^sup>2)"
    using pos by (simp add: power_divide)
  also have "\<dots> = (1 - t\<^sup>2) / (1 + t\<^sup>2)" by (simp add: diff_divide_distrib)
  finally show ?thesis .
qed

lemma sin_2arctan: "sin (2 * arctan t) = 2 * t / (1 + t\<^sup>2)"
proof -
  have pos: "0 < 1 + t\<^sup>2" by (simp add: add_pos_nonneg)
  have "sin (2 * arctan t) = 2 * sin (arctan t) * cos (arctan t)" by (rule sin_double)
  also have "\<dots> = 2 * (t / sqrt (1 + t\<^sup>2)) * (1 / sqrt (1 + t\<^sup>2))"
    by (simp only: cos_arctan sin_arctan)
  also have "\<dots> = 2 * t / (sqrt (1 + t\<^sup>2) * sqrt (1 + t\<^sup>2))" by simp
  also have "sqrt (1 + t\<^sup>2) * sqrt (1 + t\<^sup>2) = 1 + t\<^sup>2" using pos by simp
  finally show ?thesis .
qed

lemma tangency_half_angle:
  fixes a b c t :: real
  assumes root: "(b + c) * t\<^sup>2 - 2 * a * t + (c - b) = 0"
  shows "a * sin (2 * arctan t) + b * cos (2 * arctan t) = c"
proof -
  have pos: "1 + t\<^sup>2 \<noteq> 0" using add_pos_nonneg [of 1 "t\<^sup>2"] by simp
  have "a * sin (2 * arctan t) + b * cos (2 * arctan t) = (2 * a * t + b * (1 - t\<^sup>2)) / (1 + t\<^sup>2)"
    by (simp add: cos_2arctan sin_2arctan add_divide_distrib)
  also have "2 * a * t + b * (1 - t\<^sup>2) = c * (1 + t\<^sup>2)"
    using root by (simp add: algebra_simps)
  also have "c * (1 + t\<^sup>2) / (1 + t\<^sup>2) = c" using pos by simp
  finally show ?thesis .
qed

lemma quadratic_root:
  fixes a b c q :: real
  assumes q: "q * q = a * a + b * b - c * c" and d: "b + c \<noteq> 0"
  shows "(b + c) * ((a + q) / (b + c))\<^sup>2 - 2 * a * ((a + q) / (b + c)) + (c - b) = 0"
proof -
  define e where "e = b + c"
  have e: "e \<noteq> 0" using d by (simp add: e_def)
  have "e * ((a + q) / e)\<^sup>2 - 2 * a * ((a + q) / e) + (c - b)
      = ((a + q) * (a + q) - 2 * a * (a + q) + (c - b) * e) / e"
    using e by (simp add: power2_eq_square field_simps)
  also have "(a + q) * (a + q) - 2 * a * (a + q) + (c - b) * e = q * q - (a * a + b * b - c * c)"
    by (simp add: e_def algebra_simps)
  also have "\<dots> = 0" using q by simp
  finally show ?thesis by (simp add: e_def)
qed

lemma tangency_plus:
  assumes rad: "0 \<le> a * a + b * b - c * c" and d: "b + c \<noteq> 0"
    and sg: "sg = 1 \<or> sg = - 1"
  shows "a * sin (2 * arctan ((a + sg * sqrt (a * a + b * b - c * c)) / (b + c)))
       + b * cos (2 * arctan ((a + sg * sqrt (a * a + b * b - c * c)) / (b + c))) = c"
proof -
  define q where "q = sg * sqrt (a * a + b * b - c * c)"
  have "q * q = sqrt (a * a + b * b - c * c) * sqrt (a * a + b * b - c * c)"
    using sg by (auto simp: q_def)
  also have "\<dots> = a * a + b * b - c * c" using rad by simp
  finally have "q * q = a * a + b * b - c * c" .
  from tangency_half_angle [OF quadratic_root [OF this d]] show ?thesis by (simp add: q_def)
qed

lemma tangency_minus_root:
  fixes a b c :: real
  assumes rad: "0 \<le> a * a + b * b - c * c" and d: "b + c \<noteq> 0"
  shows "a * sin (2 * arctan ((a - sqrt (a * a + b * b - c * c)) / (b + c)))
       + b * cos (2 * arctan ((a - sqrt (a * a + b * b - c * c)) / (b + c))) = c"
  using tangency_plus [OF rad d, of "- 1"] by simp

lemma tangency_plus_root:
  fixes a b c :: real
  assumes rad: "0 \<le> a * a + b * b - c * c" and d: "b + c \<noteq> 0"
  shows "a * sin (2 * arctan ((a + sqrt (a * a + b * b - c * c)) / (b + c)))
       + b * cos (2 * arctan ((a + sqrt (a * a + b * b - c * c)) / (b + c))) = c"
  using tangency_plus [OF rad d, of 1] by simp

lemma tangency_normalise:
  "tangency R a b beta \<Longrightarrow> tangency R a b (if beta < 0 then beta + pi else beta)"
  by (simp add: tangency_def power2_eq_square algebra_simps)

lemma tangentLine_tangency:
  assumes rad: "0 \<le> tangentLine_radicand cfg (x_cr - x_n) (y_n - y_cr)"
    and d: "tangentLine_divisor cfg (y_n - y_cr) \<noteq> 0"
  shows "tangency (turningRadius cfg) (x_cr - x_n) (y_n - y_cr) (fst (tangentLine cfg x_n y_n x_cr y_cr))"
    and "tangency (turningRadius cfg) (x_cr - x_n) (y_n - y_cr) (snd (tangentLine cfg x_n y_n x_cr y_cr))"
proof -
  define a where "a = x_cr - x_n"
  define b where "b = y_n - y_cr"
  define R where "R = turningRadius cfg"
  define q where "q = sqrt (tangentLine_radicand cfg a b)"
  have rad': "0 \<le> a * a + b * b - R * R" "0 \<le> a * a + b * b - (- R) * (- R)"
    using rad by (simp_all add: tangentLine_radicand_def a_def b_def R_def)
  have q: "q = sqrt (a * a + b * b - R * R)" "q = sqrt (a * a + b * b - (- R) * (- R))"
    by (simp_all add: q_def tangentLine_radicand_def R_def)
  have "tangency (turningRadius cfg) (x_cr - x_n) (y_n - y_cr) (fst (tangentLine cfg x_n y_n x_cr y_cr))
      \<and> tangency (turningRadius cfg) (x_cr - x_n) (y_n - y_cr) (snd (tangentLine cfg x_n y_n x_cr y_cr))"
  proof (cases "\<bar>b + R\<bar> < epsilon")
    case True
    with d have d': "b + (- R) \<noteq> 0" by (simp add: tangentLine_divisor_def b_def R_def)
    have t1: "tangency R a b (2 * arctan ((a - q) / (b - R)))"
      using tangency_minus_root [OF rad'(2) d'] by (simp add: tangency_def q(2))
    have t2: "tangency R a b (2 * arctan ((a + q) / (b - R)))"
      using tangency_plus_root [OF rad'(2) d'] by (simp add: tangency_def q(2))
    have "tangentLine cfg x_n y_n x_cr y_cr =
        (if 2 * arctan ((a - q) / (b - R)) < 0 then 2 * arctan ((a - q) / (b - R)) + pi
         else 2 * arctan ((a - q) / (b - R)),
         if 2 * arctan ((a + q) / (b - R)) < 0 then 2 * arctan ((a + q) / (b - R)) + pi
         else 2 * arctan ((a + q) / (b - R)))"
      using True unfolding tangentLine_def Let_def tangentLine_divisor_def
        a_def [symmetric] b_def [symmetric] R_def [symmetric] q_def [symmetric]
      by simp
    then show ?thesis
      using tangency_normalise [OF t1] tangency_normalise [OF t2]
      by (simp add: a_def b_def R_def)
  next
    case False
    with d have d': "b + R \<noteq> 0" by (simp add: tangentLine_divisor_def b_def R_def)
    have t1: "tangency R a b (2 * arctan ((a + q) / (b + R)))"
      using tangency_plus_root [OF rad'(1) d'] by (simp add: tangency_def q(1))
    have t2: "tangency R a b (2 * arctan ((a - q) / (b + R)))"
      using tangency_minus_root [OF rad'(1) d'] by (simp add: tangency_def q(1))
    have "tangentLine cfg x_n y_n x_cr y_cr =
        (if 2 * arctan ((a + q) / (b + R)) < 0 then 2 * arctan ((a + q) / (b + R)) + pi
         else 2 * arctan ((a + q) / (b + R)),
         if 2 * arctan ((a - q) / (b + R)) < 0 then 2 * arctan ((a - q) / (b + R)) + pi
         else 2 * arctan ((a - q) / (b + R)))"
      using False unfolding tangentLine_def Let_def tangentLine_divisor_def
        a_def [symmetric] b_def [symmetric] R_def [symmetric] q_def [symmetric]
      by simp
    then show ?thesis
      using tangency_normalise [OF t1] tangency_normalise [OF t2]
      by (simp add: a_def b_def R_def)
  qed
  then show "tangency (turningRadius cfg) (x_cr - x_n) (y_n - y_cr) (fst (tangentLine cfg x_n y_n x_cr y_cr))"
    and "tangency (turningRadius cfg) (x_cr - x_n) (y_n - y_cr) (snd (tangentLine cfg x_n y_n x_cr y_cr))"
    by simp_all
qed

lemma tangent_candidate_offset:
  "fst (tangent_candidate x_n y_n x_cr y_cr beta) - x_cr
     = - ((x_cr - x_n) * sin beta + (y_n - y_cr) * cos beta) * sin beta"
  "snd (tangent_candidate x_n y_n x_cr y_cr beta) - y_cr
     = ((x_cr - x_n) * sin beta + (y_n - y_cr) * cos beta) * cos beta"
proof -
  have one: "cos beta * cos beta + sin beta * sin beta = 1"
    using sin_cos_squared_add [of beta] by (simp add: power2_eq_square)
  show "fst (tangent_candidate x_n y_n x_cr y_cr beta) - x_cr
     = - ((x_cr - x_n) * sin beta + (y_n - y_cr) * cos beta) * sin beta"
    by (simp add: tangent_candidate_def Let_def one algebra_simps)
  show "snd (tangent_candidate x_n y_n x_cr y_cr beta) - y_cr
     = ((x_cr - x_n) * sin beta + (y_n - y_cr) * cos beta) * cos beta"
    by (simp add: tangent_candidate_def Let_def one algebra_simps)
qed

lemma tangent_candidate_on_circle:
  assumes "tangency R (x_cr - x_n) (y_n - y_cr) beta"
  shows "(fst (tangent_candidate x_n y_n x_cr y_cr beta) - x_cr)\<^sup>2
       + (snd (tangent_candidate x_n y_n x_cr y_cr beta) - y_cr)\<^sup>2 = R\<^sup>2"
proof -
  define D where "D = (x_cr - x_n) * sin beta + (y_n - y_cr) * cos beta"
  have e: "u * s + u * c = u * (s + c)" for u c s :: real by (simp add: algebra_simps)
  have "(- D * sin beta)\<^sup>2 + (D * cos beta)\<^sup>2 = D\<^sup>2 * (sin beta)\<^sup>2 + D\<^sup>2 * (cos beta)\<^sup>2"
    by (simp add: power_mult_distrib)
  also have "\<dots> = D\<^sup>2 * ((sin beta)\<^sup>2 + (cos beta)\<^sup>2)" by (rule e)
  also have "\<dots> = D\<^sup>2" by simp
  also have "\<dots> = R\<^sup>2" using assms by (simp add: tangency_def D_def)
  finally show ?thesis by (simp only: tangent_candidate_offset D_def)
qed

lemma polar_form:
  fixes u v R :: real
  assumes R: "0 < R" and on: "u\<^sup>2 + v\<^sup>2 = R\<^sup>2"
  shows "cos (atan2 v u) * R = u" and "sin (atan2 v u) * R = v"
proof -
  have both: "cos (atan2 v u) * R = u \<and> sin (atan2 v u) * R = v"
  proof (cases "u = 0")
    case True
    with on have "v\<^sup>2 = R\<^sup>2" by simp
    then have "v = R \<or> v = - R" by (simp add: power2_eq_iff)
    with True R show ?thesis by (auto simp: atan2_def)
  next
    case False
    define t where "t = v / u"
    have u2: "0 < u\<^sup>2" using False by simp
    have "1 + t\<^sup>2 = (u\<^sup>2 + v\<^sup>2) / u\<^sup>2"
      using False by (simp add: t_def power_divide add_divide_distrib)
    also have "\<dots> = (R / u)\<^sup>2" using on by (simp add: power_divide)
    finally have "sqrt (1 + t\<^sup>2) = \<bar>R / u\<bar>" by simp
    then have sq: "sqrt (1 + t\<^sup>2) = R / \<bar>u\<bar>" using R by simp
    have "cos (arctan t) = 1 / (R / \<bar>u\<bar>)" by (simp only: cos_arctan sq)
    then have c: "cos (arctan t) * R = \<bar>u\<bar>" using R by simp
    have "sin (arctan t) = t / (R / \<bar>u\<bar>)" by (simp only: sin_arctan sq)
    then have "sin (arctan t) * R = t * \<bar>u\<bar>" using R by simp
    then have s: "sin (arctan t) * R = v * \<bar>u\<bar> / u" by (simp add: t_def)
    show ?thesis
    proof (cases "0 < u")
      case True
      then have "atan2 v u = arctan t" by (simp add: atan2_def t_def)
      with c s True show ?thesis by simp
    next
      case nonpos: False
      with False have neg: "u < 0" by simp
      then have "atan2 v u = arctan t + pi \<or> atan2 v u = arctan t - pi"
        by (simp add: atan2_def t_def)
      moreover have "cos (arctan t + pi) = - cos (arctan t)" "sin (arctan t + pi) = - sin (arctan t)"
        "cos (arctan t - pi) = - cos (arctan t)" "sin (arctan t - pi) = - sin (arctan t)"
        by (simp_all add: cos_diff sin_diff)
      ultimately have "cos (atan2 v u) * R = - (cos (arctan t) * R)
          \<and> sin (atan2 v u) * R = - (sin (arctan t) * R)" by auto
      with c s neg show ?thesis by simp
    qed
  qed
  from both show "cos (atan2 v u) * R = u" and "sin (atan2 v u) * R = v" by simp_all
qed

lemma start_angle_polar:
  assumes R: "0 < R" and on: "(px - x_cr)\<^sup>2 + (py - y_cr)\<^sup>2 = R\<^sup>2"
  shows "x_cr + cos (start_angle px py x_cr y_cr) * R = px"
    and "y_cr + sin (start_angle px py x_cr y_cr) * R = py"
  using polar_form [OF R on] by (simp_all add: start_angle_def Let_def)

lemma stop_angle_cos_sin [simp]:
  "cos (stop_angle dir a b) = cos b" "sin (stop_angle dir a b) = sin b"
  by (simp_all add: stop_angle_def cos_diff sin_diff)

lemma chord_bound:
  fixes a b R :: real
  shows "(cos a * R - cos b * R)\<^sup>2 + (sin a * R - sin b * R)\<^sup>2 \<le> (R * (a - b))\<^sup>2"
proof -
  define h where "h = (a - b) / 2"
  have "(cos a - cos b)\<^sup>2 + (sin a - sin b)\<^sup>2
      = ((sin a)\<^sup>2 + (cos a)\<^sup>2) + ((sin b)\<^sup>2 + (cos b)\<^sup>2) - 2 * (cos a * cos b + sin a * sin b)"
    by (simp add: power2_eq_square algebra_simps)
  also have "\<dots> = 2 - 2 * cos (a - b)" by (simp add: cos_diff)
  also have "a - b = 2 * h" by (simp add: h_def)
  also have "2 - 2 * cos (2 * h) = 4 * (sin h)\<^sup>2"
    by (simp add: cos_double cos_squared_eq)
  finally have eq: "(cos a - cos b)\<^sup>2 + (sin a - sin b)\<^sup>2 = 4 * (sin h)\<^sup>2" .
  have "\<bar>sin h\<bar> \<le> \<bar>h\<bar>" by (rule abs_sin_x_le_abs_x)
  then have "(sin h)\<^sup>2 \<le> h\<^sup>2" by (simp add: abs_le_square_iff)
  then have "4 * (sin h)\<^sup>2 \<le> (a - b)\<^sup>2" by (simp add: h_def power_divide)
  with eq have "(cos a - cos b)\<^sup>2 + (sin a - sin b)\<^sup>2 \<le> (a - b)\<^sup>2" by simp
  then have "R\<^sup>2 * ((cos a - cos b)\<^sup>2 + (sin a - sin b)\<^sup>2) \<le> R\<^sup>2 * (a - b)\<^sup>2"
    by (rule mult_left_mono) simp
  moreover have "(cos a * R - cos b * R)\<^sup>2 + (sin a * R - sin b * R)\<^sup>2
      = R\<^sup>2 * ((cos a - cos b)\<^sup>2 + (sin a - sin b)\<^sup>2)"
  proof -
    have "(cos a * R - cos b * R)\<^sup>2 + (sin a * R - sin b * R)\<^sup>2
        = (R * (cos a - cos b))\<^sup>2 + (R * (sin a - sin b))\<^sup>2"
      by (simp add: algebra_simps)
    also have "\<dots> = R\<^sup>2 * (cos a - cos b)\<^sup>2 + R\<^sup>2 * (sin a - sin b)\<^sup>2"
      by (simp only: power_mult_distrib)
    also have "\<dots> = R\<^sup>2 * ((cos a - cos b)\<^sup>2 + (sin a - sin b)\<^sup>2)"
      by (simp only: distrib_left)
    finally show ?thesis .
  qed
  ultimately show ?thesis by (simp add: power_mult_distrib)
qed

lemma spaced_within_nth:
  "spaced_within d ps \<longleftrightarrow>
     (\<forall>k. Suc k < length ps \<longrightarrow> sample_distance (ps ! k) (ps ! Suc k) \<le> d)"
proof (induction d ps rule: spaced_within.induct)
  case (1 d p q ps)
  have "(\<forall>k. Suc k < length (p # q # ps) \<longrightarrow>
          sample_distance ((p # q # ps) ! k) ((p # q # ps) ! Suc k) \<le> d)
      \<longleftrightarrow> sample_distance p q \<le> d \<and>
          (\<forall>k. Suc k < length (q # ps) \<longrightarrow>
             sample_distance ((q # ps) ! k) ((q # ps) ! Suc k) \<le> d)"
    (is "?L \<longleftrightarrow> ?A \<and> ?R")
  proof
    assume l: ?L
    from l [rule_format, of 0] have ?A by simp
    moreover have ?R
    proof (intro allI impI)
      fix k assume "Suc k < length (q # ps)"
      with l [rule_format, of "Suc k"] show
        "sample_distance ((q # ps) ! k) ((q # ps) ! Suc k) \<le> d" by simp
    qed
    ultimately show "?A \<and> ?R" ..
  next
    assume r: "?A \<and> ?R"
    show ?L
    proof (intro allI impI)
      fix k assume k: "Suc k < length (p # q # ps)"
      show "sample_distance ((p # q # ps) ! k) ((p # q # ps) ! Suc k) \<le> d"
      proof (cases k)
        case 0
        with r show ?thesis by simp
      next
        case (Suc j)
        with k r [THEN conjunct2, rule_format, of j] show ?thesis by simp
      qed
    qed
  qed
  with 1 show ?case by simp
qed simp_all

lemma arc_samples_length [simp]:
  "length (arc_samples cfg clk x_cr y_cr dir inc start n N) = N"
  by (simp add: arc_samples_def)

lemma line_samples_length [simp]:
  "length (line_samples cfg clk x_lc y_lc dx_norm dy_norm i n M) = M"
  by (simp add: line_samples_def)

lemma arc_samples_nth:
  "k < N \<Longrightarrow> arc_samples cfg clk x_cr y_cr dir inc start n N ! k =
     sample_point (clk (n + k)) (x_cr + cos (arc_angle dir inc start k) * turningRadius cfg)
                                (y_cr + sin (arc_angle dir inc start k) * turningRadius cfg)"
  by (simp add: arc_samples_def)

lemma line_samples_nth:
  "k < M \<Longrightarrow> line_samples cfg clk x_lc y_lc dx_norm dy_norm i n M ! k =
     sample_point (clk (n + k)) (x_lc + (i + real k) * pathResolution cfg * dx_norm)
                                (y_lc + (i + real k) * pathResolution cfg * dy_norm)"
  by (simp add: line_samples_def)

lemma circle_points_distance:
  "sample_distance (sample_point t (x_cr + cos a * R) (y_cr + sin a * R))
                   (sample_point t' (x_cr + cos b * R) (y_cr + sin b * R)) \<le> \<bar>R * (a - b)\<bar>"
proof -
  have "sample_distance (sample_point t (x_cr + cos a * R) (y_cr + sin a * R))
                   (sample_point t' (x_cr + cos b * R) (y_cr + sin b * R))
      = sqrt ((cos a * R - cos b * R)\<^sup>2 + (sin a * R - sin b * R)\<^sup>2)"
    by (simp add: sample_distance_def)
  also have "\<dots> \<le> sqrt ((R * (a - b))\<^sup>2)"
    by (rule real_sqrt_le_mono) (rule chord_bound)
  finally show ?thesis by simp
qed

lemma line_points_distance:
  assumes s: "0 \<le> s"
  shows "sample_distance
           (sample_point t (x_lc + i * s * (dx / sqrt (dx * dx + dy * dy)))
                           (y_lc + i * s * (dy / sqrt (dx * dx + dy * dy))))
           (sample_point t' (x_lc + (i + 1) * s * (dx / sqrt (dx * dx + dy * dy)))
                            (y_lc + (i + 1) * s * (dy / sqrt (dx * dx + dy * dy)))) \<le> s"
proof -
  define L where "L = sqrt (dx * dx + dy * dy)"
  have L2: "L * L = dx * dx + dy * dy" by (simp add: L_def)
  have unit: "(dx / L)\<^sup>2 + (dy / L)\<^sup>2 \<le> 1"
  proof (cases "L = 0")
    case True
    then show ?thesis by simp
  next
    case False
    have "(dx / L)\<^sup>2 + (dy / L)\<^sup>2 = (dx * dx + dy * dy) / (L * L)"
      by (simp add: power2_eq_square add_divide_distrib)
    also have "\<dots> = (L * L) / (L * L)" by (simp only: L2)
    also have "\<dots> = 1" using False by simp
    finally show ?thesis by simp
  qed
  have "sample_distance
           (sample_point t (x_lc + i * s * (dx / L)) (y_lc + i * s * (dy / L)))
           (sample_point t' (x_lc + (i + 1) * s * (dx / L)) (y_lc + (i + 1) * s * (dy / L)))
      = sqrt ((s * (dx / L))\<^sup>2 + (s * (dy / L))\<^sup>2)"
    by (simp add: sample_distance_def algebra_simps power2_commute)
  also have "(s * (dx / L))\<^sup>2 + (s * (dy / L))\<^sup>2 = s\<^sup>2 * ((dx / L)\<^sup>2 + (dy / L)\<^sup>2)"
    by (simp only: power_mult_distrib distrib_left)
  also have "sqrt (s\<^sup>2 * ((dx / L)\<^sup>2 + (dy / L)\<^sup>2)) \<le> sqrt (s\<^sup>2 * 1)"
    by (rule real_sqrt_le_mono, rule mult_left_mono [OF unit]) simp
  finally show ?thesis using s by (simp add: L_def)
qed

lemma arc_gap:
  "\<bar>arc_angle dir inc a0 k - a1\<bar> = \<bar>real k * inc - dir_value dir * (a1 - a0)\<bar>"
  by (cases dir) (simp_all add: arc_angle_def dir_value_def algebra_simps)

lemma arc_step:
  "\<bar>arc_angle dir inc a0 k - arc_angle dir inc a0 (Suc k)\<bar> = \<bar>inc\<bar>"
  by (cases dir) (simp_all add: arc_angle_def dir_value_def algebra_simps)

lemma spaced_within_mono: "spaced_within d ps \<Longrightarrow> d \<le> e \<Longrightarrow> spaced_within e ps"
  unfolding spaced_within_nth by (meson order_trans)

lemma consecutive_nth:
  "consecutive P ps \<longleftrightarrow> (\<forall>k. Suc k < length ps \<longrightarrow> P (ps ! k) (ps ! Suc k))"
proof (induction P ps rule: consecutive.induct)
  case (1 P p q ps)
  have "(\<forall>k. Suc k < length (p # q # ps) \<longrightarrow> P ((p # q # ps) ! k) ((p # q # ps) ! Suc k))
      \<longleftrightarrow> P p q \<and> (\<forall>k. Suc k < length (q # ps) \<longrightarrow> P ((q # ps) ! k) ((q # ps) ! Suc k))"
    (is "?L \<longleftrightarrow> ?A \<and> ?R")
  proof
    assume l: ?L
    from l [rule_format, of 0] have ?A by simp
    moreover have ?R
    proof (intro allI impI)
      fix k assume "Suc k < length (q # ps)"
      with l [rule_format, of "Suc k"] show "P ((q # ps) ! k) ((q # ps) ! Suc k)" by simp
    qed
    ultimately show "?A \<and> ?R" ..
  next
    assume r: "?A \<and> ?R"
    show ?L
    proof (intro allI impI)
      fix k assume k: "Suc k < length (p # q # ps)"
      show "P ((p # q # ps) ! k) ((p # q # ps) ! Suc k)"
      proof (cases k)
        case 0
        with r show ?thesis by simp
      next
        case (Suc j)
        with k r [THEN conjunct2, rule_format, of j] show ?thesis by simp
      qed
    qed
  qed
  with 1 show ?case by simp
qed simp_all

lemma arc_turns:
  assumes R: "0 < R" and inc: "0 < inc" "inc < pi"
  shows "turns_with dir x_cr y_cr
           (sample_point t (x_cr + cos (arc_angle dir inc a0 k) * R) (y_cr + sin (arc_angle dir inc a0 k) * R))
           (sample_point t' (x_cr + cos (arc_angle dir inc a0 (Suc k)) * R)
                            (y_cr + sin (arc_angle dir inc a0 (Suc k)) * R))"
proof -
  define a where "a = arc_angle dir inc a0 k"
  have b: "arc_angle dir inc a0 (Suc k) = a + dir_value dir * inc"
    by (simp add: a_def arc_angle_def algebra_simps)
  have "cos a * R * (sin (a + dir_value dir * inc) * R) - sin a * R * (cos (a + dir_value dir * inc) * R)
      = R * R * sin (a + dir_value dir * inc - a)"
    unfolding sin_diff [of "a + dir_value dir * inc" a] by (simp add: algebra_simps)
  also have "\<dots> = R * R * (dir_value dir * sin inc)"
    by (cases dir) (simp_all add: dir_value_def)
  finally have "dir_value dir * (cos a * R * (sin (a + dir_value dir * inc) * R)
        - sin a * R * (cos (a + dir_value dir * inc) * R)) = R * R * sin inc"
    by (cases dir) (simp_all add: dir_value_def)
  moreover have "0 < R * R * sin inc" using R sin_gt_zero [OF inc] by simp
  ultimately show ?thesis
    unfolding turns_with_def b a_def [symmetric] by simp
qed

lemma line_advances:
  assumes s: "0 < s" and L: "dx \<noteq> 0 \<or> dy \<noteq> 0"
  shows "advances_along dx dy
           (sample_point t (x_lc + i * s * (dx / sqrt (dx * dx + dy * dy)))
                           (y_lc + i * s * (dy / sqrt (dx * dx + dy * dy))))
           (sample_point t' (x_lc + (i + 1) * s * (dx / sqrt (dx * dx + dy * dy)))
                            (y_lc + (i + 1) * s * (dy / sqrt (dx * dx + dy * dy))))"
proof -
  define L where "L = sqrt (dx * dx + dy * dy)"
  have "0 < dx * dx + dy * dy" using L by (metis add_pos_nonneg add_nonneg_pos zero_le_square not_real_square_gt_zero)
  then have Lp: "0 < L" by (simp add: L_def)
  have L2: "L * L = dx * dx + dy * dy" by (simp add: L_def)
  have "(x_lc + (i + 1) * s * (dx / L) - (x_lc + i * s * (dx / L))) * dx
      + (y_lc + (i + 1) * s * (dy / L) - (y_lc + i * s * (dy / L))) * dy
      = s * ((dx * dx + dy * dy) / L)"
    by (simp add: algebra_simps add_divide_distrib)
  also have "\<dots> = s * L" using Lp by (simp add: L2 [symmetric])
  finally show ?thesis using s Lp unfolding advances_along_def L_def [symmetric] by simp
qed

lemma generatePath_steps:
  fixes cfg :: config and x_q y_q x_n y_n x_cr y_cr x_lc y_lc :: real and dir :: Dir
  assumes R: "0 < turningRadius cfg" and s: "0 < pathResolution cfg"
    and on: "(x_lc - x_cr)\<^sup>2 + (y_lc - y_cr)\<^sup>2 = (turningRadius cfg)\<^sup>2"
  defines "inc \<equiv> pathResolution cfg / turningRadius cfg"
  defines "a0 \<equiv> start_angle x_q y_q x_cr y_cr"
  defines "dxn \<equiv> (x_n - x_lc) / sqrt ((x_n - x_lc) * (x_n - x_lc) + (y_n - y_lc) * (y_n - y_lc))"
  defines "dyn \<equiv> (y_n - y_lc) / sqrt ((x_n - x_lc) * (x_n - x_lc) + (y_n - y_lc) * (y_n - y_lc))"
  shows "\<exists>N M. generatePath cfg clk x_q y_q x_n y_n x_cr y_cr x_lc y_lc dir goal pth =
            Some (pth\<lparr>path_header := (path_header pth)\<lparr>stamp := clk 0, frame_id := ''map''\<rparr>,
                       poses := arc_samples cfg clk x_cr y_cr dir inc a0 1 N
                                @ line_samples cfg clk x_lc y_lc dxn dyn 0 (1 + N) M @ [goal]\<rparr>)
          \<and> spaced_within (pathResolution cfg) (arc_samples cfg clk x_cr y_cr dir inc a0 1 N)
          \<and> spaced_within (pathResolution cfg) (line_samples cfg clk x_lc y_lc dxn dyn 0 (1 + N) M)
          \<and> spaced_within (3 * pathResolution cfg)
               (arc_samples cfg clk x_cr y_cr dir inc a0 1 N
                @ line_samples cfg clk x_lc y_lc dxn dyn 0 (1 + N) M)
          \<and> real N * inc < 2 * pi
          \<and> consecutive (turns_with dir x_cr y_cr) (arc_samples cfg clk x_cr y_cr dir inc a0 1 N)
          \<and> consecutive (advances_along (x_n - x_lc) (y_n - y_lc))
               (line_samples cfg clk x_lc y_lc dxn dyn 0 (1 + N) M)"
proof -
  define a1 where "a1 = stop_angle dir (start_angle x_q y_q x_cr y_cr) (start_angle x_lc y_lc x_cr y_cr)"
  define Rr where "Rr = turningRadius cfg"
  define sr where "sr = pathResolution cfg"
  have inc: "0 < inc" and Rinc: "Rr * inc = sr"
    using R s by (simp_all add: inc_def Rr_def sr_def)
  have Rr: "0 < Rr" and sr: "0 < sr" using R s by (simp_all add: Rr_def sr_def)
  from generatePath_closed [OF R s, where x_q = x_q and y_q = y_q and x_cr = x_cr and y_cr = y_cr
      and dir = dir and x_n = x_n and y_n = y_n and x_lc = x_lc and y_lc = y_lc and clk = clk
      and goal = goal and pth = pth]
  obtain N M where
    run: "generatePath cfg clk x_q y_q x_n y_n x_cr y_cr x_lc y_lc dir goal pth =
            Some (pth\<lparr>path_header := (path_header pth)\<lparr>stamp := clk 0, frame_id := ''map''\<rparr>,
                       poses := arc_samples cfg clk x_cr y_cr dir inc a0 1 N
                                @ line_samples cfg clk x_lc y_lc dxn dyn 0 (1 + N) M @ [goal]\<rparr>)"
    and stopN: "\<not> arc_cond a0 a1 inc dir N"
    and before: "\<forall>k<N. 2 * inc < dir_value dir * (a1 - a0) - real k * inc"
    and lineM: "\<forall>k<M. line_cond cfg (x_n - x_lc) dxn 0 k"
    unfolding inc_def a0_def a1_def dxn_def dyn_def by blast
  have turn: "dir_value dir * (a1 - a0) < 2 * pi"
    unfolding a0_def a1_def using stop_angle_ahead(2) start_angle_bounds by blast
  have lap: "real N * inc < 2 * pi"
  proof (cases N)
    case 0
    then show ?thesis using pi_gt_zero by simp
  next
    case (Suc m)
    with before have "2 * inc < dir_value dir * (a1 - a0) - real m * inc" by simp
    with turn inc show ?thesis by (simp add: Suc algebra_simps)
  qed
  let ?A = "arc_samples cfg clk x_cr y_cr dir inc a0 1 N"
  let ?L = "line_samples cfg clk x_lc y_lc dxn dyn 0 (1 + N) M"
  have tangent_pt: "x_cr + cos a1 * Rr = x_lc" "y_cr + sin a1 * Rr = y_lc"
    using start_angle_polar [OF Rr on [folded Rr_def]] by (simp_all add: a1_def)
  have arc_arc: "sample_distance (?A ! k) (?A ! Suc k) \<le> sr" if "Suc k < N" for k
  proof -
    have "sample_distance (?A ! k) (?A ! Suc k)
        \<le> \<bar>Rr * (arc_angle dir inc a0 k - arc_angle dir inc a0 (Suc k))\<bar>"
      using that by (simp add: arc_samples_nth Rr_def circle_points_distance)
    also have "\<dots> = Rr * inc" using Rr inc by (simp add: abs_mult arc_step)
    finally show ?thesis by (simp add: Rinc)
  qed
  have line_line: "sample_distance (?L ! k) (?L ! Suc k) \<le> sr" if "Suc k < M" for k
    using that line_points_distance [where s = sr and x_lc = x_lc and y_lc = y_lc and i = "real k"
        and dx = "x_n - x_lc" and dy = "y_n - y_lc"] sr
    by (simp add: line_samples_nth dxn_def dyn_def sr_def add.commute)
  have arc_line: "sample_distance (?A ! k) (?L ! 0) \<le> 3 * sr" if "Suc k = N" "0 < M" for k
  proof -
    define D where "D = dir_value dir * (a1 - a0)"
    have k: "k < N" using that by simp
    from before k have lo: "2 * inc < D - real k * inc" by (simp add: D_def)
    from stopN have "\<bar>real N * inc - D\<bar> \<le> 2 * inc"
      by (simp add: arc_cond_def arc_gap D_def)
    with that(1) have hi: "D - real k * inc \<le> 3 * inc" by (auto simp: algebra_simps)
    have "?L ! 0 = sample_point (clk (1 + N)) (x_cr + cos a1 * Rr) (y_cr + sin a1 * Rr)"
      using that(2) by (simp add: line_samples_nth tangent_pt)
    then have "sample_distance (?A ! k) (?L ! 0) \<le> \<bar>Rr * (arc_angle dir inc a0 k - a1)\<bar>"
      using k by (simp add: arc_samples_nth Rr_def [symmetric] circle_points_distance)
    also have "\<dots> = Rr * \<bar>real k * inc - D\<bar>"
      using Rr by (simp add: abs_mult arc_gap D_def)
    also have "\<dots> \<le> Rr * (3 * inc)"
      using lo hi inc Rr by (intro mult_left_mono) simp_all
    finally show ?thesis using Rinc by (simp add: algebra_simps)
  qed
  have "spaced_within sr ?A" unfolding spaced_within_nth using arc_arc by simp
  moreover have "spaced_within sr ?L" unfolding spaced_within_nth using line_line by simp
  moreover have "spaced_within (3 * sr) (?A @ ?L)"
    unfolding spaced_within_nth
  proof (intro allI impI)
    fix k assume "Suc k < length (?A @ ?L)"
    then have k: "Suc k < N + M" by simp
    consider "Suc k < N" | "Suc k = N" "0 < M" | "N \<le> k" "Suc (k - N) < M"
      using k by linarith
    then show "sample_distance ((?A @ ?L) ! k) ((?A @ ?L) ! Suc k) \<le> 3 * sr"
    proof cases
      case 1
      then have "sample_distance ((?A @ ?L) ! k) ((?A @ ?L) ! Suc k) \<le> sr"
        using arc_arc [OF 1] by (simp add: nth_append)
      with sr show ?thesis by simp
    next
      case 2
      then show ?thesis using arc_line [OF 2] by (auto simp: nth_append)
    next
      case 3
      then have "sample_distance ((?A @ ?L) ! k) ((?A @ ?L) ! Suc k) \<le> sr"
        using line_line [OF 3(2)] by (simp add: nth_append Suc_diff_le)
      with sr show ?thesis by simp
    qed
  qed
  moreover have "consecutive (turns_with dir x_cr y_cr) ?A"
    unfolding consecutive_nth
  proof (intro allI impI)
    fix k assume "Suc k < length ?A"
    then have k: "Suc k < N" by simp
    then have "0 < N" by simp
    with before have "2 * inc < dir_value dir * (a1 - a0) - real 0 * inc" by blast
    with turn inc have "inc < pi" by simp
    from arc_turns [OF Rr inc this] k
    show "turns_with dir x_cr y_cr (?A ! k) (?A ! Suc k)"
      by (simp add: arc_samples_nth Rr_def)
  qed
  moreover have "consecutive (advances_along (x_n - x_lc) (y_n - y_lc)) ?L"
    unfolding consecutive_nth
  proof (intro allI impI)
    fix k assume "Suc k < length ?L"
    then have k: "Suc k < M" by simp
    then have "0 < M" by simp
    with lineM have "line_cond cfg (x_n - x_lc) dxn 0 0" by blast
    then have "x_n - x_lc \<noteq> 0" using s by (auto simp: line_cond_def)
    then have "x_n - x_lc \<noteq> 0 \<or> y_n - y_lc \<noteq> 0" ..
    from line_advances [OF sr this, where x_lc = x_lc and y_lc = y_lc and i = "real k"] k
    show "advances_along (x_n - x_lc) (y_n - y_lc) (?L ! k) (?L ! Suc k)"
      by (simp add: line_samples_nth dxn_def dyn_def sr_def add.commute)
  qed
  ultimately show ?thesis using run lap unfolding sr_def by blast
qed

lemma radicand_divisor_ok:
  assumes "epsilon \<le> 2 * turningRadius cfg"
    and "turningRadius cfg * turningRadius cfg \<le> a * a + b * b"
  shows "0 \<le> tangentLine_radicand cfg a b" and "tangentLine_divisor cfg b \<noteq> 0"
  using assms epsilon_pos
  by (auto simp: tangentLine_radicand_def tangentLine_divisor_def)

lemma selected_tangent_point_on_circle:
  assumes R: "0 < turningRadius cfg" and eps: "epsilon \<le> 2 * turningRadius cfg"
    and reach: "turningRadius cfg \<le> target_center_distance cfg x_q y_q theta_q x_n y_n"
  shows "(fst (selected_tangent_point cfg x_q y_q theta_q x_n y_n)
            - fst (turningCenter cfg x_q y_q theta_q x_n y_n))\<^sup>2
       + (snd (selected_tangent_point cfg x_q y_q theta_q x_n y_n)
            - snd (turningCenter cfg x_q y_q theta_q x_n y_n))\<^sup>2 = (turningRadius cfg)\<^sup>2"
proof -
  define x_cr where "x_cr = fst (turningCenter cfg x_q y_q theta_q x_n y_n)"
  define y_cr where "y_cr = snd (turningCenter cfg x_q y_q theta_q x_n y_n)"
  define beta1 where "beta1 = fst (tangentLine cfg x_n y_n x_cr y_cr)"
  define beta2 where "beta2 = snd (tangentLine cfg x_n y_n x_cr y_cr)"
  have dist: "target_center_distance cfg x_q y_q theta_q x_n y_n
      = sqrt ((x_n - x_cr)\<^sup>2 + (y_n - y_cr)\<^sup>2)"
    by (simp add: target_center_distance_def x_cr_def y_cr_def case_prod_beta)
  from reach R have "(turningRadius cfg)\<^sup>2 \<le> (sqrt ((x_n - x_cr)\<^sup>2 + (y_n - y_cr)\<^sup>2))\<^sup>2"
    unfolding dist by (intro power_mono) simp_all
  also have "\<dots> = (x_n - x_cr)\<^sup>2 + (y_n - y_cr)\<^sup>2" by simp
  also have "\<dots> = (x_cr - x_n) * (x_cr - x_n) + (y_n - y_cr) * (y_n - y_cr)"
    by (simp add: power2_eq_square algebra_simps)
  finally have "turningRadius cfg * turningRadius cfg
      \<le> (x_cr - x_n) * (x_cr - x_n) + (y_n - y_cr) * (y_n - y_cr)"
    by (simp add: power2_eq_square)
  from radicand_divisor_ok [OF eps this]
  have t: "tangency (turningRadius cfg) (x_cr - x_n) (y_n - y_cr) beta1"
      "tangency (turningRadius cfg) (x_cr - x_n) (y_n - y_cr) beta2"
    unfolding beta1_def beta2_def by (rule tangentLine_tangency)+
  have sel: "selected_tangent_point cfg x_q y_q theta_q x_n y_n
      = tangentPoint x_q y_q x_n y_n x_cr y_cr beta1 beta2 (turningDirection x_q y_q theta_q x_n y_n)"
    by (simp add: selected_tangent_point_def x_cr_def y_cr_def beta1_def beta2_def case_prod_beta)
  have "selected_tangent_point cfg x_q y_q theta_q x_n y_n = tangent_candidate x_n y_n x_cr y_cr beta1
      \<or> selected_tangent_point cfg x_q y_q theta_q x_n y_n = tangent_candidate x_n y_n x_cr y_cr beta2"
    unfolding sel tangentPoint_eq by (simp split: Dir.split)
  then show ?thesis
    using tangent_candidate_on_circle [OF t(1)] tangent_candidate_on_circle [OF t(2)]
    unfolding x_cr_def [symmetric] y_cr_def [symmetric] by auto
qed

lemma generatePath_line_run:
  fixes cfg :: config and x_q y_q x_n y_n x_cr y_cr x_lc y_lc :: real and dir :: Dir
  assumes R: "0 < turningRadius cfg" and s: "0 < pathResolution cfg"
  defines "inc \<equiv> pathResolution cfg / turningRadius cfg"
  defines "a0 \<equiv> start_angle x_q y_q x_cr y_cr"
  defines "dxn \<equiv> (x_n - x_lc) / sqrt ((x_n - x_lc) * (x_n - x_lc) + (y_n - y_lc) * (y_n - y_lc))"
  defines "dyn \<equiv> (y_n - y_lc) / sqrt ((x_n - x_lc) * (x_n - x_lc) + (y_n - y_lc) * (y_n - y_lc))"
  assumes line: "\<forall>k<M. line_cond cfg (x_n - x_lc) dxn 0 k" "\<not> line_cond cfg (x_n - x_lc) dxn 0 M"
  shows "\<exists>N. generatePath cfg clk x_q y_q x_n y_n x_cr y_cr x_lc y_lc dir goal pth =
            Some (pth\<lparr>path_header := (path_header pth)\<lparr>stamp := clk 0, frame_id := ''map''\<rparr>,
                       poses := arc_samples cfg clk x_cr y_cr dir inc a0 1 N
                                @ line_samples cfg clk x_lc y_lc dxn dyn 0 (1 + N) M @ [goal]\<rparr>)"
proof -
  from generatePath_closed [OF R s, where x_q = x_q and y_q = y_q and x_cr = x_cr and y_cr = y_cr
      and dir = dir and x_n = x_n and y_n = y_n and x_lc = x_lc and y_lc = y_lc and clk = clk
      and goal = goal and pth = pth]
  obtain N M' where
    run: "generatePath cfg clk x_q y_q x_n y_n x_cr y_cr x_lc y_lc dir goal pth =
            Some (pth\<lparr>path_header := (path_header pth)\<lparr>stamp := clk 0, frame_id := ''map''\<rparr>,
                       poses := arc_samples cfg clk x_cr y_cr dir inc a0 1 N
                                @ line_samples cfg clk x_lc y_lc dxn dyn 0 (1 + N) M' @ [goal]\<rparr>)"
    and M': "\<forall>k<M'. line_cond cfg (x_n - x_lc) dxn 0 k" "\<not> line_cond cfg (x_n - x_lc) dxn 0 M'"
    unfolding inc_def a0_def dxn_def dyn_def by blast
  have "M' = M"
  proof (rule ccontr)
    assume "M' \<noteq> M"
    then consider "M' < M" | "M < M'" by linarith
    then show False
    proof cases
      case 1 with line(1) M'(2) show False by blast
    next
      case 2 with M'(1) line(2) show False by blast
    qed
  qed
  with run show ?thesis by blast
qed

lemma sqrt_100: "sqrt 100 = 10"
  using real_sqrt_abs2 [of 10] by simp

lemma exA_dir: "turningDirection 0 0 0 (- 10) 2 = Left"
  by (simp add: turningDirection_def)

lemma exA_tangentLine:
  "tangentLine \<lparr>turningRadius = 1, pathResolution = 7 / 8\<rparr> (- 10) 2 0 1 = (2 * arctan 10, 0)"
  by (simp add: tangentLine_def tangentLine_radicand_def tangentLine_divisor_def epsilon_def
      Let_def sqrt_100)

lemma exA_candidate1:
  "tangent_candidate (- 10) 2 0 1 (2 * arctan 10) = (- (20 / 101), 2 / 101)"
  by (simp add: tangent_candidate_def Let_def cos_2arctan sin_2arctan power2_eq_square
      real_sqrt_divide)

lemma exA_wrapped1: "pi < wrapped_angle 0 0 0 1 (- (20 / 101), 2 / 101)"
proof -
  have "wrapped_angle 0 0 0 1 (- (20 / 101), 2 / 101) = arctan (- (20 / 99)) + 2 * pi"
    by (simp add: wrapped_angle_def atan2_def Let_def)
  moreover have "- (pi / 2) < arctan (- (20 / 99))" by (rule arctan_lbound)
  ultimately show ?thesis using pi_gt_zero by linarith
qed

lemma exA_selected:
  "selected_tangent_point \<lparr>turningRadius = 1, pathResolution = 7 / 8\<rparr> 0 0 0 (- 10) 2 = (0, 2)"
  using exA_wrapped1
  by (simp add: selected_tangent_point_def exA_tangentLine exA_dir tangentPoint_eq
      exA_candidate1 ex_candidates ex_wrapped)

lemma exA_line_cond:
  "\<forall>k<10. line_cond \<lparr>turningRadius = 1, pathResolution = 7 / 8\<rparr> (- 10) (- 1) 0 k"
  "\<not> line_cond \<lparr>turningRadius = 1, pathResolution = 7 / 8\<rparr> (- 10) (- 1) 0 10"
proof -
  show "\<forall>k<10. line_cond \<lparr>turningRadius = 1, pathResolution = 7 / 8\<rparr> (- 10) (- 1) 0 k"
  proof (intro allI impI)
    fix k :: nat assume "k < 10"
    then have "real k \<le> 9" by simp
    then show "line_cond \<lparr>turningRadius = 1, pathResolution = 7 / 8\<rparr> (- 10) (- 1) 0 k"
      by (simp add: line_cond_def)
  qed
  show "\<not> line_cond \<lparr>turningRadius = 1, pathResolution = 7 / 8\<rparr> (- 10) (- 1) 0 10"
    by (simp add: line_cond_def)
qed

lemma sqrt_289_4: "sqrt (289 / 4) = 17 / 2"
  using real_sqrt_abs2 [of "17 / 2"] by simp

lemma exB_dir: "turningDirection 0 0 0 (3 / 2) 10 = Left"
  by (simp add: turningDirection_def)

lemma exB_center:
  "turningCenter \<lparr>turningRadius = 3 / 2, pathResolution = 1 / 20\<rparr> 0 0 0 (3 / 2) 10 = (0, 3 / 2)"
  by (simp add: turningCenter_def Let_def power2_eq_square)

lemma exB_tangentLine:
  "tangentLine \<lparr>turningRadius = 3 / 2, pathResolution = 1 / 20\<rparr> (3 / 2) 10 0 (3 / 2)
     = (2 * arctan (7 / 10), pi / 2)"
proof -
  have "arctan (- 1) = - (pi / 4)" by (simp add: arctan_minus arctan_one)
  then show ?thesis
    by (simp add: tangentLine_def tangentLine_radicand_def tangentLine_divisor_def epsilon_def
      Let_def sqrt_289_4)
qed

lemma exB_candidate1:
  "tangent_candidate (3 / 2) 10 0 (3 / 2) (2 * arctan (7 / 10)) = (- (210 / 149), 300 / 149)"
  by (simp add: tangent_candidate_def Let_def cos_2arctan sin_2arctan power2_eq_square
      real_sqrt_divide)

lemma exB_candidate2:
  "tangent_candidate (3 / 2) 10 0 (3 / 2) (pi / 2) = (3 / 2, 3 / 2)"
  by (simp add: tangent_candidate_def Let_def)

lemma exB_wrapped1: "\<not> wrapped_angle 0 0 0 (3 / 2) (- (210 / 149), 300 / 149) < pi / 2"
proof -
  have "atan2 (0 * (300 / 149 - 3 / 2) - (0 - 3 / 2) * (- (210 / 149) - 0))
              (0 * (- (210 / 149) - 0) + (0 - 3 / 2) * (300 / 149 - 3 / 2))
        = arctan (140 / 51) - pi"
    by (simp add: atan2_def)
  moreover have "0 < arctan (140 / 51)" by simp
  moreover have "arctan (140 / 51) < pi / 2" by (rule arctan_ubound)
  moreover have "arctan (140 / 51) - pi < 0"
    using arctan_ubound [of "140 / 51"] pi_gt_zero by linarith
  ultimately have "wrapped_angle 0 0 0 (3 / 2) (- (210 / 149), 300 / 149) = arctan (140 / 51) + pi"
    by (simp add: wrapped_angle_def Let_def)
  with \<open>0 < arctan (140 / 51)\<close> show ?thesis using pi_gt_zero by linarith
qed

lemma exB_wrapped2: "wrapped_angle 0 0 0 (3 / 2) (3 / 2, 3 / 2) = pi / 2"
  by (simp add: wrapped_angle_def atan2_def Let_def)

lemma exB_selected:
  "selected_tangent_point \<lparr>turningRadius = 3 / 2, pathResolution = 1 / 20\<rparr> 0 0 0 (3 / 2) 10
     = (3 / 2, 3 / 2)"
  using exB_wrapped1
  by (simp add: selected_tangent_point_def exB_center exB_tangentLine exB_dir tangentPoint_eq
      exB_candidate1 exB_candidate2 exB_wrapped2)

subsection \<open>The example path\<close>

lemma arctan_le_self:
  fixes x :: real
  assumes "0 \<le> x"
  shows "arctan x \<le> x"
proof -
  let ?f = "\<lambda>u. u - arctan u"
  have "\<exists>y. DERIV ?f u :> y \<and> 0 \<le> y" for u :: real
  proof -
    have "1 \<le> 1 + u\<^sup>2" by simp
    then have "inverse (1 + u\<^sup>2) \<le> 1" by (rule inverse_le_1_iff [THEN iffD2, OF disjI2])
    moreover have "DERIV ?f u :> 1 - inverse (1 + u\<^sup>2)"
      by (auto intro!: derivative_eq_intros)
    ultimately show ?thesis by (intro exI [of _ "1 - inverse (1 + u\<^sup>2)"]) simp
  qed
  then have "?f 0 \<le> ?f x" by (intro DERIV_nonneg_imp_nondecreasing [OF assms]) blast
  then show ?thesis by simp
qed

lemma pi_ge_3: "3 \<le> pi"
proof -
  have "sin (pi / 6) \<le> pi / 6" by (rule sin_x_le_x) simp
  then show ?thesis by (simp add: sin_30)
qed

lemma pi_le_32: "pi \<le> 16 / 5"
proof -
  have "arctan (1 / 5) \<le> 1 / 5" by (rule arctan_le_self) simp
  moreover have "0 \<le> arctan (1 / 239)" by simp
  ultimately have "4 * arctan (1 / 5) - arctan (1 / 239) \<le> 4 / 5" by linarith
  then have "pi / 4 \<le> 4 / 5" by (simp only: machin)
  then show ?thesis by simp
qed

lemma cos_lower: "1 - x\<^sup>2 / 2 \<le> cos x" for x :: real
proof -
  define h where "h = x / 2"
  have "\<bar>sin h\<bar> \<le> \<bar>h\<bar>" by (rule abs_sin_x_le_abs_x)
  then have "(sin h)\<^sup>2 \<le> h\<^sup>2" by (simp only: abs_le_square_iff)
  then have "(sin (x / 2))\<^sup>2 \<le> (x / 2)\<^sup>2" by (simp only: h_def)
  moreover have "cos x = 1 - 2 * (sin (x / 2))\<^sup>2"
    using cos_double_sin [of "x / 2"] by simp
  ultimately show ?thesis by (simp add: power_divide)
qed

lemma generatePath_run:
  fixes cfg :: config and x_q y_q x_n y_n x_cr y_cr x_lc y_lc :: real and dir :: Dir
  defines "inc \<equiv> pathResolution cfg / turningRadius cfg"
  defines "a0 \<equiv> start_angle x_q y_q x_cr y_cr"
  defines "a1 \<equiv> stop_angle dir (start_angle x_q y_q x_cr y_cr) (start_angle x_lc y_lc x_cr y_cr)"
  defines "dxn \<equiv> (x_n - x_lc) / sqrt ((x_n - x_lc) * (x_n - x_lc) + (y_n - y_lc) * (y_n - y_lc))"
  defines "dyn \<equiv> (y_n - y_lc) / sqrt ((x_n - x_lc) * (x_n - x_lc) + (y_n - y_lc) * (y_n - y_lc))"
  assumes arc: "\<forall>k<N. arc_cond a0 a1 inc dir k" "\<not> arc_cond a0 a1 inc dir N"
    and line: "\<forall>k<M. line_cond cfg (x_n - x_lc) dxn 0 k" "\<not> line_cond cfg (x_n - x_lc) dxn 0 M"
  shows "generatePath cfg clk x_q y_q x_n y_n x_cr y_cr x_lc y_lc dir goal pth =
            Some (pth\<lparr>path_header := (path_header pth)\<lparr>stamp := clk 0, frame_id := ''map''\<rparr>,
                       poses := arc_samples cfg clk x_cr y_cr dir inc a0 1 N
                                @ line_samples cfg clk x_lc y_lc dxn dyn 0 (1 + N) M @ [goal]\<rparr>)"
proof -
  have a: "arc_loop cfg clk x_cr y_cr dir a1 inc a0 1 [] =
      Some (1 + N, arc_samples cfg clk x_cr y_cr dir inc a0 1 N)"
    using arc_loop_closed [OF arc, of cfg clk x_cr y_cr 1 "[]"] by simp
  have l: "line_loop cfg clk x_lc y_lc (x_n - x_lc) dxn dyn 0 (1 + N) ps =
      Some (1 + N + M, ps @ line_samples cfg clk x_lc y_lc dxn dyn 0 (1 + N) M)" for ps
    using line_loop_closed [OF line, of clk x_lc y_lc dyn "1 + N" ps] by simp
  show ?thesis
    using a l unfolding generatePath_eq a0_def a1_def inc_def dxn_def dyn_def by simp
qed

lemma exA_start_angle: "start_angle 0 0 0 1 = 3 * pi / 2"
  by (simp add: start_angle_def atan2_def Let_def)

lemma exA_stop_angle: "stop_angle Left (3 * pi / 2) (start_angle 0 2 0 1) = 5 * pi / 2"
proof -
  have "start_angle 0 2 0 1 = pi / 2" by (simp add: start_angle_def atan2_def Let_def)
  moreover have "pi / 2 < 3 * pi / 2" using pi_gt_zero by linarith
  ultimately show ?thesis by (simp add: stop_angle_def)
qed

lemma exA_arc_cond:
  "\<forall>k<2. arc_cond (3 * pi / 2) (5 * pi / 2) (7 / 8) Left k"
  "\<not> arc_cond (3 * pi / 2) (5 * pi / 2) (7 / 8) Left 2"
proof -
  have c: "arc_cond (3 * pi / 2) (5 * pi / 2) (7 / 8) Left k \<longleftrightarrow> \<bar>real k * (7 / 8) - pi\<bar> > 7 / 4" for k
  proof -
    have "3 * pi / 2 + real k * (7 / 8) - 5 * pi / 2 = real k * (7 / 8) - pi" by simp
    then show ?thesis by (simp add: arc_cond_def arc_angle_def dir_value_def)
  qed
  show "\<forall>k<2. arc_cond (3 * pi / 2) (5 * pi / 2) (7 / 8) Left k"
  proof (intro allI impI)
    fix k :: nat assume "k < 2"
    then have "real k \<le> 1" by simp
    moreover have "0 \<le> real k" by simp
    ultimately show "arc_cond (3 * pi / 2) (5 * pi / 2) (7 / 8) Left k"
      unfolding c using pi_ge_3 by linarith
  qed
  show "\<not> arc_cond (3 * pi / 2) (5 * pi / 2) (7 / 8) Left 2"
    unfolding c using pi_ge_3 pi_le_32 by simp
qed

lemma exA_generatePath:
  "generatePath \<lparr>turningRadius = 1, pathResolution = 7 / 8\<rparr> steady_clock 0 0 (- 10) 2 0 1 0 2
      Left (pose_at (- 10) 2) empty_path =
   Some (empty_path\<lparr>path_header := (path_header empty_path)\<lparr>stamp := 0, frame_id := ''map''\<rparr>,
           poses := arc_samples \<lparr>turningRadius = 1, pathResolution = 7 / 8\<rparr> steady_clock 0 1 Left
                      (7 / 8) (3 * pi / 2) 1 2
                    @ line_samples \<lparr>turningRadius = 1, pathResolution = 7 / 8\<rparr> steady_clock 0 2
                        (- 1) 0 0 3 10
                    @ [pose_at (- 10) 2]\<rparr>)"
  using generatePath_run [where cfg = "\<lparr>turningRadius = 1, pathResolution = 7 / 8\<rparr>"
      and x_q = 0 and y_q = 0 and x_n = "- 10" and y_n = 2 and x_cr = 0 and y_cr = 1
      and x_lc = 0 and y_lc = 2 and dir = Left and N = 2 and M = 10 and clk = steady_clock
      and goal = "pose_at (- 10) 2" and pth = empty_path]
  by (simp add: exA_start_angle exA_stop_angle exA_arc_cond exA_line_cond sqrt_100
      steady_clock_def numeral_3_eq_3)

lemma sin_cos_three_half_pi:
  "sin (3 * pi / 2 + x) = - cos x" "cos (3 * pi / 2 + x) = sin x"
proof -
  have e: "3 * pi / 2 + x = (pi / 2 + x) + pi" by simp
  show "sin (3 * pi / 2 + x) = - cos x"
    unfolding e by (simp only: sin_periodic_pi) (simp add: sin_add)
  show "cos (3 * pi / 2 + x) = sin x"
    unfolding e by (simp only: cos_periodic_pi) (simp add: cos_add)
qed

lemma exA_path:
  "path_of (makePath \<lparr>turningRadius = 1, pathResolution = 7 / 8\<rparr> steady_clock yaw_of
              (pose_at 0 0) (pose_at (- 10) 2) empty_path) =
     arc_samples \<lparr>turningRadius = 1, pathResolution = 7 / 8\<rparr> steady_clock 0 1 Left
        (7 / 8) (3 * pi / 2) 1 2
     @ line_samples \<lparr>turningRadius = 1, pathResolution = 7 / 8\<rparr> steady_clock 0 2 (- 1) 0 0 3 10
     @ [pose_at (- 10) 2]"
  by (simp add: path_of_def makePath_eq exA_selected exA_dir exA_generatePath)

lemma exA_transition:
  "7 / 4 < sample_distance (sample_point t (0 + cos (3 * pi / 2 + 7 / 8) * 1) (1 + sin (3 * pi / 2 + 7 / 8) * 1))
                           (sample_point t' 0 2)"
proof -
  have "sample_distance (sample_point t (0 + cos (3 * pi / 2 + 7 / 8) * 1) (1 + sin (3 * pi / 2 + 7 / 8) * 1))
                           (sample_point t' 0 2)
      = sqrt ((sin (7 / 8 :: real))\<^sup>2 + (- 1 - cos (7 / 8 :: real))\<^sup>2)"
    by (simp add: sample_distance_def sin_cos_three_half_pi)
  also have "(sin (7 / 8 :: real))\<^sup>2 + (- 1 - cos (7 / 8 :: real))\<^sup>2
      = ((sin (7 / 8 :: real))\<^sup>2 + (cos (7 / 8 :: real))\<^sup>2) + 1 + 2 * cos (7 / 8 :: real)"
    by (simp add: power2_eq_square algebra_simps)
  also have "\<dots> = 2 + 2 * cos (7 / 8 :: real)" by simp
  finally have d: "sample_distance (sample_point t (0 + cos (3 * pi / 2 + 7 / 8) * 1) (1 + sin (3 * pi / 2 + 7 / 8) * 1))
                           (sample_point t' 0 2) = sqrt (2 + 2 * cos (7 / 8))" .
  have "1 - (7 / 8)\<^sup>2 / 2 \<le> cos (7 / 8 :: real)" by (rule cos_lower)
  then have "(7 / 4)\<^sup>2 < 2 + 2 * cos (7 / 8 :: real)" by (simp add: power2_eq_square)
  then have "sqrt ((7 / 4)\<^sup>2) < sqrt (2 + 2 * cos (7 / 8))" by (rule real_sqrt_less_mono)
  then show ?thesis unfolding d by simp
qed

subsection \<open>Rounding\<close>

lemma round_even_error: "\<bar>of_int (round_even y) - y\<bar> \<le> 1 / 2"
  unfolding round_even_def Let_def by (auto simp: abs_le_iff)

lemma round_even_ge_int:
  assumes "of_int k \<le> y"
  shows "k \<le> round_even y"
proof -
  from assms have "k \<le> \<lfloor>y\<rfloor>" by (simp add: le_floor_iff)
  then show ?thesis unfolding round_even_def Let_def by auto
qed

lemma round_even_of_int [simp]: "round_even (of_int k) = k"
  unfolding round_even_def Let_def by simp

lemma binade:
  assumes "x \<noteq> 0"
  shows "2 powi \<lfloor>log 2 \<bar>x\<bar>\<rfloor> \<le> \<bar>x\<bar>" and "\<bar>x\<bar> < 2 powi (\<lfloor>log 2 \<bar>x\<bar>\<rfloor> + 1)"
proof -
  have "0 < \<bar>x\<bar>" using assms by simp
  from floor_log_eq_powr_iff [OF this, of 2 "\<lfloor>log 2 \<bar>x\<bar>\<rfloor>"]
  have "2 powr \<lfloor>log 2 \<bar>x\<bar>\<rfloor> \<le> \<bar>x\<bar> \<and> \<bar>x\<bar> < 2 powr (\<lfloor>log 2 \<bar>x\<bar>\<rfloor> + 1)" by simp
  then show "2 powi \<lfloor>log 2 \<bar>x\<bar>\<rfloor> \<le> \<bar>x\<bar>" and "\<bar>x\<bar> < 2 powi (\<lfloor>log 2 \<bar>x\<bar>\<rfloor> + 1)"
    using powr_real_of_int' [of 2 "\<lfloor>log 2 \<bar>x\<bar>\<rfloor>"] powr_real_of_int' [of 2 "\<lfloor>log 2 \<bar>x\<bar>\<rfloor> + 1"]
    by simp_all
qed

lemma floor_log2_eq:
  assumes "2 powi e \<le> \<bar>x\<bar>" and "\<bar>x\<bar> < 2 powi (e + 1)"
  shows "\<lfloor>log 2 \<bar>x\<bar>\<rfloor> = e"
proof -
  have "0 < (2::real) powi e" by simp
  with assms(1) have "0 < \<bar>x\<bar>" by linarith
  from floor_log_eq_powr_iff [OF this, of 2 e] assms
  show ?thesis
    using powr_real_of_int' [of 2 e] powr_real_of_int' [of 2 "e + 1"] by simp
qed

lemma rnd_eq:
  assumes "2 powi e \<le> \<bar>x\<bar>" and "\<bar>x\<bar> < 2 powi (e + 1)"
  shows "rnd x = 2 powi (e - 52) * of_int (round_even (x / 2 powi (e - 52)))"
proof -
  have "0 < (2::real) powi e" by simp
  with assms(1) have "0 < \<bar>x\<bar>" by linarith
  then have "x \<noteq> 0" by simp
  then show ?thesis by (simp add: rnd_def Let_def floor_log2_eq [OF assms])
qed

lemma rnd_0 [simp]: "rnd 0 = 0" by (simp add: rnd_def)

lemma rnd_error: "\<bar>rnd x - x\<bar> \<le> \<bar>x\<bar> / 2 ^ 53"
proof (cases "x = 0")
  case True
  then show ?thesis by simp
next
  case False
  define e where "e = \<lfloor>log 2 \<bar>x\<bar>\<rfloor>"
  define q :: real where "q = 2 powi (e - 52)"
  have q: "0 < q" by (simp add: q_def)
  have r: "rnd x = q * of_int (round_even (x / q))" using False by (simp add: rnd_def Let_def e_def q_def)
  have "\<bar>rnd x - x\<bar> = \<bar>q * (of_int (round_even (x / q)) - x / q)\<bar>"
    using q by (simp add: r algebra_simps)
  also have "\<dots> = q * \<bar>of_int (round_even (x / q)) - x / q\<bar>" using q by (simp add: abs_mult)
  also have "\<dots> \<le> q * (1 / 2)" using q round_even_error [of "x / q"] by (intro mult_left_mono) simp_all
  also have "q * (1 / 2) = 2 powi e / 2 ^ 53"
    by (simp add: q_def power_int_diff)
  also have "\<dots> \<le> \<bar>x\<bar> / 2 ^ 53"
    using binade(1) [OF False] by (simp add: e_def divide_right_mono)
  finally show ?thesis .
qed

lemma rnd_zero_iff [simp]: "rnd x = 0 \<longleftrightarrow> x = 0"
proof
  assume "rnd x = 0"
  with rnd_error [of x] have "\<bar>x\<bar> \<le> \<bar>x\<bar> / 2 ^ 53" by simp
  then have "\<bar>x\<bar> * 2 ^ 53 \<le> \<bar>x\<bar>" by (simp add: field_simps)
  then show "x = 0" by (cases "x = 0") (simp_all add: mult_le_cancel_left1)
qed simp

lemma rnd_lower: "x - \<bar>x\<bar> / 2 ^ 53 \<le> rnd x" and rnd_upper: "rnd x \<le> x + \<bar>x\<bar> / 2 ^ 53"
  using rnd_error [of x] by linarith+

lemma rnd_nonneg: "0 \<le> x \<Longrightarrow> 0 \<le> rnd x"
  using rnd_lower [of x] by (simp add: field_simps)

lemma rnd_nonpos: "x \<le> 0 \<Longrightarrow> rnd x \<le> 0"
  using rnd_upper [of x] by (simp add: field_simps)

lemma rnd_ge_pow2:
  assumes "2 powi k \<le> x"
  shows "2 powi k \<le> rnd x"
proof -
  have p: "0 < (2::real) powi k" by simp
  with assms have x: "0 < x" by linarith
  define e where "e = \<lfloor>log 2 \<bar>x\<bar>\<rfloor>"
  define q :: real where "q = 2 powi (e - 52)"
  have q: "0 < q" by (simp add: q_def)
  have r: "rnd x = q * of_int (round_even (x / q))" using x by (simp add: rnd_def Let_def e_def q_def)
  have b: "2 powi e \<le> x" "x < 2 powi (e + 1)"
    using binade [of x] x by (simp_all add: e_def)
  have ke: "k \<le> e"
  proof (rule ccontr)
    assume "\<not> k \<le> e"
    then have "e + 1 \<le> k" by simp
    then have "(2::real) powi (e + 1) \<le> 2 powi k" by (intro power_int_increasing) simp_all
    with b(2) assms show False by linarith
  qed
  have "(2::real) powi e / q = 2 powi 52" by (simp add: q_def power_int_diff)
  also have "\<dots> = of_int (2 ^ 52)" by simp
  finally have "of_int (2 ^ 52) \<le> x / q" using b(1) q by (simp add: field_simps)
  then have "2 ^ 52 \<le> round_even (x / q)" by (rule round_even_ge_int)
  then have "(2::real) ^ 52 \<le> of_int (round_even (x / q))" by (metis of_int_le_iff of_int_numeral of_int_power)
  then have "q * 2 ^ 52 \<le> q * of_int (round_even (x / q))" using q by (intro mult_left_mono) simp_all
  moreover have "q * 2 ^ 52 = 2 powi e" by (simp add: q_def power_int_diff)
  moreover have "(2::real) powi k \<le> 2 powi e" using ke by (intro power_int_increasing) simp_all
  ultimately show ?thesis unfolding r by linarith
qed

lemma round_even_unique:
  assumes "\<bar>of_int m - y\<bar> < 1 / 2"
  shows "round_even y = m"
proof -
  have "\<bar>of_int (round_even y) - of_int m :: real\<bar> < 1" using round_even_error [of y] assms by linarith
  then have "\<bar>of_int (round_even y - m) :: real\<bar> < 1" by simp
  then have "\<bar>round_even y - m\<bar> < 1" by (metis of_int_abs of_int_less_1_iff)
  then show ?thesis by simp
qed

lemma rnd_eval:
  assumes "2 powi e \<le> \<bar>x\<bar>" and "\<bar>x\<bar> < 2 powi (e + 1)"
    and "\<bar>of_int m - x / 2 powi (e - 52)\<bar> < 1 / 2"
  shows "rnd x = of_int m * 2 powi (e - 52)"
  using rnd_eq [OF assms(1,2)] round_even_unique [OF assms(3)] by simp

lemma round_even_tie_down:
  assumes "y = of_int m + 1 / 2" and "even m"
  shows "round_even y = m"
proof -
  have "\<lfloor>y\<rfloor> = m" unfolding assms(1) by (rule floor_unique) simp_all
  then show ?thesis using assms by (simp add: round_even_def)
qed

lemma rnd_eval_tie_down:
  assumes "2 powi e \<le> \<bar>x\<bar>" and "\<bar>x\<bar> < 2 powi (e + 1)"
    and "x / 2 powi (e - 52) = of_int m + 1 / 2" and "even m"
  shows "rnd x = of_int m * 2 powi (e - 52)"
  using rnd_eq [OF assms(1,2)] round_even_tie_down [OF assms(3,4)] by simp

lemma rnd_power_int [simp]: "rnd (2 powi k) = 2 powi k"
proof -
  have "(2::real) powi k < 2 powi (k + 1)" by (simp add: power_int_add)
  with rnd_eval [of k "2 powi k" "2 ^ 52"] show ?thesis by (simp add: power_int_diff)
qed

lemma epsilon_powi: "epsilon = 2 powi (- 52)"
  by (simp add: epsilon_def power_int_minus field_simps)

lemma divisor_double_nonzero:
  assumes "epsilon \<le> 2 * turningRadius cfg"
  shows "tangentLine_divisor_double cfg b \<noteq> 0"
proof (cases "\<bar>rnd (b + turningRadius cfg)\<bar> < epsilon")
  case True
  have "b \<noteq> turningRadius cfg"
  proof
    assume "b = turningRadius cfg"
    with assms have "2 powi (- 52) \<le> b + turningRadius cfg" by (simp add: epsilon_powi)
    then have "2 powi (- 52) \<le> rnd (b + turningRadius cfg)" by (rule rnd_ge_pow2)
    with True show False by (simp add: epsilon_powi)
  qed
  with True show ?thesis by (simp add: tangentLine_divisor_double_def)
next
  case False
  then have "rnd (b + turningRadius cfg) \<noteq> 0" using epsilon_pos by auto
  with False show ?thesis by (simp add: tangentLine_divisor_double_def del: rnd_zero_iff)
qed

lemma radicand_double_lower:
  fixes a b :: real
  assumes "turningRadius cfg * turningRadius cfg \<le> a * a + b * b"
  shows "- ((a * a + b * b) / 2 ^ 51) \<le> tangentLine_radicand_double cfg a b"
proof -
  define A where "A = a * a"
  define B where "B = b * b"
  define C where "C = turningRadius cfg * turningRadius cfg"
  define S where "S = rnd A + rnd B"
  define X where "X = rnd S - rnd C"
  have A: "0 \<le> A" and B: "0 \<le> B" and C: "0 \<le> C" by (simp_all add: A_def B_def C_def)
  have CT: "C \<le> A + B" using assms by (simp add: A_def B_def C_def)
  have rA: "A - A / 2 ^ 53 \<le> rnd A" "rnd A \<le> A + A / 2 ^ 53"
    using rnd_lower [of A] rnd_upper [of A] A by simp_all
  have rB: "B - B / 2 ^ 53 \<le> rnd B" "rnd B \<le> B + B / 2 ^ 53"
    using rnd_lower [of B] rnd_upper [of B] B by simp_all
  have S0: "0 \<le> S" using rnd_nonneg [OF A] rnd_nonneg [OF B] by (simp add: S_def)
  have rS: "S - S / 2 ^ 53 \<le> rnd S" using rnd_lower [of S] S0 by simp
  have rC: "rnd C \<le> C + C / 2 ^ 53" using rnd_upper [of C] C by simp
  have Sb: "(A + B) - (A + B) / 2 ^ 53 \<le> S" "S \<le> (A + B) + (A + B) / 2 ^ 53"
    using rA rB by (simp_all add: S_def add_divide_distrib)
  have X: "- (3 * (A + B) / 2 ^ 53) - (A + B) / 2 ^ 106 \<le> X"
    using rS rC Sb CT unfolding X_def by (simp add: field_simps)
  have rX: "X - \<bar>X\<bar> / 2 ^ 53 \<le> rnd X" by (rule rnd_lower)
  have "- ((A + B) / 2 ^ 51) \<le> rnd X"
  proof (cases "0 \<le> X")
    case True
    then have "0 \<le> rnd X" by (rule rnd_nonneg)
    moreover have "0 \<le> (A + B) / 2 ^ 51" using A B by simp
    ultimately show ?thesis by linarith
  next
    case False
    then have "X + X / 2 ^ 53 \<le> rnd X" using rX by simp
    with X A B show ?thesis by (simp add: field_simps)
  qed
  then show ?thesis
    by (simp add: tangentLine_radicand_double_def X_def S_def A_def B_def C_def)
qed

lemma ex9_radicand:
  "tangentLine_radicand_double \<lparr>turningRadius = 5967269506265907 / 2 ^ 51, pathResolution = 1 / 20\<rparr>
     (- (331410717316979 / 2 ^ 47)) (5473953266500179 / 2 ^ 52) = - (1 / 2 ^ 50)"
proof -
  have aa: "rnd (- (331410717316979 / 2 ^ 47) * - (331410717316979 / 2 ^ 47)) = 6243286836283605 / 2 ^ 50"
    by (rule trans [OF rnd_eval [of 2 _ 6243286836283605]]) simp_all
  have bb: "rnd (5473953266500179 / 2 ^ 52 * (5473953266500179 / 2 ^ 52)) = 6653381038074886 / 2 ^ 52"
    by (rule trans [OF rnd_eval [of 0 _ 6653381038074886]]) simp_all
  have s: "rnd (6243286836283605 / 2 ^ 50 + 6653381038074886 / 2 ^ 52) = 7906632095802326 / 2 ^ 50"
    by (rule trans [OF rnd_eval_tie_down [of 2 _ 7906632095802326]]) simp_all
  have rr: "rnd (5967269506265907 / 2 ^ 51 * (5967269506265907 / 2 ^ 51)) = 7906632095802327 / 2 ^ 50"
    by (rule trans [OF rnd_eval [of 2 _ 7906632095802327]]) simp_all
  have x: "rnd (7906632095802326 / 2 ^ 50 - 7906632095802327 / 2 ^ 50) = - (1 / 2 ^ 50)"
    by (rule trans [OF rnd_eval [of "- 50" _ "- (2 ^ 52)"]]) simp_all
  show ?thesis unfolding tangentLine_radicand_double_def by (simp only: config.simps aa bb s rr x)
qed

lemma rnd_near:
  assumes "\<bar>x\<bar> \<le> B"
  shows "x - B / 9007199254740992 \<le> rnd x" and "rnd x \<le> x + B / 9007199254740992"
proof -
  have "\<bar>x\<bar> / 2 ^ 53 \<le> B / 2 ^ 53" using assms by (intro divide_right_mono) simp_all
  with rnd_error [of x] have "\<bar>rnd x - x\<bar> \<le> B / 9007199254740992" by simp
  then show "x - B / 9007199254740992 \<le> rnd x" and "rnd x \<le> x + B / 9007199254740992"
    by linarith+
qed

lemma rnd_2M_PI: "rnd (2 * M_PI) = 2 * M_PI"
  unfolding M_PI_def
  by (rule trans [OF rnd_eval [of 2 _ "884279719003555 * 8"]]) simp_all

lemma rnd_ge_2M_PI:
  assumes "2 * M_PI \<le> x"
  shows "2 * M_PI \<le> rnd x"
proof (cases "8 \<le> x")
  case True
  then have "2 powi 3 \<le> x" by simp
  then have "2 powi 3 \<le> rnd x" by (rule rnd_ge_pow2)
  then show ?thesis by (simp add: M_PI_def)
next
  case False
  with assms have b: "2 powi 2 \<le> \<bar>x\<bar>" "\<bar>x\<bar> < 2 powi (2 + 1)" by (simp_all add: M_PI_def)
  have "of_int (884279719003555 * 8) \<le> x / 2 powi (2 - 52)"
    using assms by (simp add: M_PI_def field_simps)
  then have "884279719003555 * 8 \<le> round_even (x / 2 powi (2 - 52))" by (rule round_even_ge_int)
  then have "(884279719003555 * 8 :: real) \<le> of_int (round_even (x / 2 powi (2 - 52)))"
    by (metis of_int_le_iff of_int_mult of_int_numeral)
  then show ?thesis unfolding rnd_eq [OF b] by (simp add: M_PI_def field_simps)
qed

lemma stop_angle_double_ahead:
  assumes "0 \<le> startAngle" "startAngle \<le> 2 * M_PI" "0 \<le> stopAngle" "stopAngle \<le> 2 * M_PI"
  shows "0 \<le> dir_value dir * (stop_angle_double dir startAngle stopAngle - startAngle)"
    and "\<bar>stop_angle_double dir startAngle stopAngle\<bar> \<le> 13"
proof -
  have M: "M_PI \<le> 16 / 5" "0 < M_PI" by (simp_all add: M_PI_def)
  have up: "rnd (stopAngle + 2 * M_PI) \<le> 13"
    using rnd_near [of "stopAngle + 2 * M_PI" 13] assms M by linarith
  have lo: "2 * M_PI \<le> rnd (stopAngle + 2 * M_PI)"
    using assms by (intro rnd_ge_2M_PI) simp
  have dn: "- 13 \<le> rnd (stopAngle - 2 * M_PI)"
    using rnd_near [of "stopAngle - 2 * M_PI" 8] assms M by linarith
  have hi: "rnd (stopAngle - 2 * M_PI) \<le> 0"
    using assms by (intro rnd_nonpos) simp
  show "0 \<le> dir_value dir * (stop_angle_double dir startAngle stopAngle - startAngle)"
    using assms lo hi by (cases dir) (auto simp: stop_angle_double_def dir_value_def rnd_2M_PI)
  show "\<bar>stop_angle_double dir startAngle stopAngle\<bar> \<le> 13"
    using assms up lo dn hi M by (cases dir) (auto simp: stop_angle_double_def rnd_2M_PI)
qed

lemma arc_loop_double_stalls:
  assumes test: "rnd (2 * inc) < \<bar>rnd (i - stop)\<bar>"
    and same: "rnd (i + rnd (dir_value dir * inc)) = i"
  shows "arc_loop_double dir stop inc i as = None"
proof (rule ccontr)
  assume "arc_loop_double dir stop inc i as \<noteq> None"
  then obtain r where run: "arc_loop_double dir stop inc i as = Some r" by blast
  have "\<not> (dir' = dir \<and> stop' = stop \<and> inc' = inc \<and> i' = i)"
    if "arc_loop_double dir' stop' inc' i' as' = Some r'" for dir' stop' inc' i' as' r'
  proof (rule arc_loop_double.raw_induct [OF _ that, where P = "\<lambda>dir' stop' inc' i' as' r'.
      \<not> (dir' = dir \<and> stop' = stop \<and> inc' = inc \<and> i' = i)"], goal_cases)
    case (1 loop dir' stop' inc' i' as' r')
    note IH = 1(1) and body = 1(2)
    show ?case
    proof
      assume eq: "dir' = dir \<and> stop' = stop \<and> inc' = inc \<and> i' = i"
      with body test same have "loop dir stop inc i (as' @ [i]) = Some r'" by simp
      from IH [OF this] show False by simp
    qed
  qed
  from this [OF run] show False by simp
qed

lemma rnd_rel:
  "0 \<le> x \<Longrightarrow> x - x / 9007199254740992 \<le> rnd x"
  "0 \<le> x \<Longrightarrow> rnd x \<le> x + x / 9007199254740992"
  "x \<le> 0 \<Longrightarrow> x + x / 9007199254740992 \<le> rnd x"
  "x \<le> 0 \<Longrightarrow> rnd x \<le> x - x / 9007199254740992"
  using rnd_lower [of x] rnd_upper [of x] by simp_all

lemma arc_step_double:
  fixes inc stop i :: real
  assumes inc: "1 / 2 ^ 46 \<le> inc" and stop: "\<bar>stop\<bar> \<le> 13" and i: "\<bar>i\<bar> \<le> 13"
    and ahead: "0 \<le> dir_value dir * (stop - i)"
    and test: "rnd (2 * inc) < \<bar>rnd (i - stop)\<bar>"
  defines "j \<equiv> rnd (i + rnd (dir_value dir * inc))"
  shows "3 * inc / 4 \<le> dir_value dir * (j - i)" and "dir_value dir * (j - i) \<le> 5 * inc / 4"
    and "0 \<le> dir_value dir * (stop - j)" and "\<bar>j\<bar> \<le> 13"
    and "3 * inc / 2 < dir_value dir * (stop - i)"
proof -
  have inc': "1 / 70368744177664 \<le> inc" using inc by simp
  then have inc0: "0 < inc" by linarith
  have two: "2 * inc - 2 * inc / 9007199254740992 \<le> rnd (2 * inc)"
    using rnd_rel(1) [of "2 * inc"] inc0 by simp
  have d: "i - stop - 26 / 9007199254740992 \<le> rnd (i - stop)"
      "rnd (i - stop) \<le> i - stop + 26 / 9007199254740992"
    using rnd_near [of "i - stop" 26] stop i by linarith+
  have "3 * inc / 4 \<le> dir_value dir * (j - i) \<and> dir_value dir * (j - i) \<le> 5 * inc / 4
    \<and> 0 \<le> dir_value dir * (stop - j) \<and> \<bar>j\<bar> \<le> 13
    \<and> 3 * inc / 2 < dir_value dir * (stop - i)"
  proof (cases dir)
    case Left
    from ahead Left have r: "i \<le> stop" by (simp add: dir_value_def)
    have far: "3 * inc / 2 < stop - i" using test two d inc' r by linarith
    define e where "e = rnd inc"
    have e: "inc - inc / 9007199254740992 \<le> e" "e \<le> inc + inc / 9007199254740992"
      using rnd_rel(1,2) [of inc] inc0 by (simp_all add: e_def)
    have "\<bar>i + e\<bar> \<le> 13" using e far r stop i inc0 by linarith
    from rnd_near [OF this] have n: "i + e - 13 / 9007199254740992 \<le> rnd (i + e)"
      "rnd (i + e) \<le> i + e + 13 / 9007199254740992" by simp_all
    have j: "j = rnd (i + e)" by (simp add: j_def e_def Left dir_value_def)
    have "3 * inc / 4 \<le> j - i" "j - i \<le> 5 * inc / 4" "0 \<le> stop - j" "\<bar>j\<bar> \<le> 13"
      unfolding j using n e inc' far r stop i by linarith+
    with far show ?thesis by (simp add: Left dir_value_def)
  next
    case Right
    from ahead Right have r: "stop \<le> i" by (simp add: dir_value_def)
    have far: "3 * inc / 2 < i - stop" using test two d inc' r by linarith
    define e where "e = rnd (- inc)"
    have e: "- inc - inc / 9007199254740992 \<le> e" "e \<le> - inc + inc / 9007199254740992"
      using rnd_rel(3,4) [of "- inc"] inc0 by (simp_all add: e_def)
    have "\<bar>i + e\<bar> \<le> 13" using e far r stop i inc0 by linarith
    from rnd_near [OF this] have n: "i + e - 13 / 9007199254740992 \<le> rnd (i + e)"
      "rnd (i + e) \<le> i + e + 13 / 9007199254740992" by simp_all
    have j: "j = rnd (i + e)" by (simp add: j_def e_def Right dir_value_def)
    have "3 * inc / 4 \<le> i - j" "i - j \<le> 5 * inc / 4" "0 \<le> j - stop" "\<bar>j\<bar> \<le> 13"
      unfolding j using n e inc' far r stop i by linarith+
    with far show ?thesis by (simp add: Right dir_value_def)
  qed
  then show "3 * inc / 4 \<le> dir_value dir * (j - i)" and "dir_value dir * (j - i) \<le> 5 * inc / 4"
    and "0 \<le> dir_value dir * (stop - j)" and "\<bar>j\<bar> \<le> 13"
    and "3 * inc / 2 < dir_value dir * (stop - i)" by simp_all
qed

lemma advancing_Cons:
  "advancing dir inc (a # bs @ [j]) \<longleftrightarrow>
     3 * inc / 4 \<le> dir_value dir * (hd (bs @ [j]) - a)
     \<and> dir_value dir * (hd (bs @ [j]) - a) \<le> 5 * inc / 4 \<and> advancing dir inc (bs @ [j])"
  by (cases bs) simp_all

lemma arc_loop_double_run:
  fixes inc stop :: real
  assumes inc: "1 / 2 ^ 46 \<le> inc" and stop: "\<bar>stop\<bar> \<le> 13"
  shows "\<bar>i\<bar> \<le> 13 \<Longrightarrow> 0 \<le> dir_value dir * (stop - i) \<Longrightarrow>
         dir_value dir * (stop - i) \<le> real m * (inc / 2) \<Longrightarrow>
     \<exists>j bs. arc_loop_double dir stop inc i as = Some (j, as @ bs)
        \<and> \<not> rnd (2 * inc) < \<bar>rnd (j - stop)\<bar>
        \<and> advancing dir inc (bs @ [j]) \<and> hd (bs @ [j]) = i
        \<and> (\<forall>a\<in>set bs. 0 \<le> dir_value dir * (a - i) \<and> 0 < dir_value dir * (stop - a))
        \<and> 0 \<le> dir_value dir * (stop - j)
        \<and> real (length bs) * (3 * inc / 4) \<le> dir_value dir * (j - i)"
proof (induction m arbitrary: i as)
  case 0
  have inc0: "0 < inc" using inc by (simp add: field_simps)
  from 0 have "dir_value dir * (stop - i) = 0" by simp
  then have "i = stop" by (cases dir) (simp_all add: dir_value_def)
  moreover have "0 \<le> rnd (2 * inc)" using inc0 by (intro rnd_nonneg) simp
  ultimately have t: "\<not> rnd (2 * inc) < \<bar>rnd (i - stop)\<bar>" by simp
  then have "arc_loop_double dir stop inc i as = Some (i, as @ [])"
    by (subst arc_loop_double.simps) simp
  with t 0 show ?case by force
next
  case (Suc m)
  show ?case
  proof (cases "rnd (2 * inc) < \<bar>rnd (i - stop)\<bar>")
    case False
    then have "arc_loop_double dir stop inc i as = Some (i, as @ [])"
      by (subst arc_loop_double.simps) simp
    with False Suc.prems show ?thesis by force
  next
    case True
    define k where "k = rnd (i + rnd (dir_value dir * inc))"
    note st = arc_step_double [OF inc stop Suc.prems(1,2) True, folded k_def]
    have inc0: "0 < inc" using inc by (simp add: field_simps)
    have "dir_value dir * (stop - k) = dir_value dir * (stop - i) - dir_value dir * (k - i)"
      by (simp add: algebra_simps)
    also have "\<dots> \<le> real (Suc m) * (inc / 2) - 3 * inc / 4" using Suc.prems(3) st(1) by linarith
    also have "\<dots> \<le> real m * (inc / 2)" using inc0 by (simp add: algebra_simps)
    finally have rem: "dir_value dir * (stop - k) \<le> real m * (inc / 2)" .
    from Suc.IH [OF st(4) st(3) rem, of "as @ [i]"] obtain j bs where
      run: "arc_loop_double dir stop inc k (as @ [i]) = Some (j, (as @ [i]) @ bs)"
      and ex: "\<not> rnd (2 * inc) < \<bar>rnd (j - stop)\<bar>"
      and adv: "advancing dir inc (bs @ [j])" and hd: "hd (bs @ [j]) = k"
      and mem: "\<forall>a\<in>set bs. 0 \<le> dir_value dir * (a - k) \<and> 0 < dir_value dir * (stop - a)"
      and last: "0 \<le> dir_value dir * (stop - j)"
      and len: "real (length bs) * (3 * inc / 4) \<le> dir_value dir * (j - k)"
      by blast
    have "arc_loop_double dir stop inc i as = Some (j, as @ (i # bs))"
      using True run by (subst arc_loop_double.simps) (simp add: k_def)
    moreover have "advancing dir inc ((i # bs) @ [j])"
      using adv hd st(1,2) by (simp add: advancing_Cons)
    moreover have "hd ((i # bs) @ [j]) = i" by simp
    moreover have "\<forall>a\<in>set (i # bs). 0 \<le> dir_value dir * (a - i) \<and> 0 < dir_value dir * (stop - a)"
    proof
      fix a assume "a \<in> set (i # bs)"
      then consider "a = i" | "a \<in> set bs" by auto
      then show "0 \<le> dir_value dir * (a - i) \<and> 0 < dir_value dir * (stop - a)"
      proof cases
        case 1
        with st(5) inc0 show ?thesis by simp
      next
        case 2
        with mem have a: "0 \<le> dir_value dir * (a - k)" "0 < dir_value dir * (stop - a)" by auto
        have "dir_value dir * (a - i) = dir_value dir * (a - k) + dir_value dir * (k - i)"
          by (simp add: algebra_simps)
        with a st(1) inc0 show ?thesis by simp
      qed
    qed
    moreover have "real (length (i # bs)) * (3 * inc / 4) \<le> dir_value dir * (j - i)"
    proof -
      have d: "dir_value dir * (j - i) = dir_value dir * (j - k) + dir_value dir * (k - i)"
        by (simp add: algebra_simps)
      have e: "real (length (i # bs)) * (3 * inc / 4)
          = real (length bs) * (3 * inc / 4) + 3 * inc / 4"
        by (simp add: algebra_simps)
      show ?thesis unfolding e d using len st(1) by linarith
    qed
    ultimately show ?thesis using ex last by blast
  qed
qed

lemma rnd_1 [simp]: "rnd 1 = 1"
  using rnd_power_int [of 0] by simp

lemma rnd_2 [simp]: "rnd 2 = 2"
  using rnd_power_int [of 1] by simp

lemma rnd_tiny: "rnd (1 / 2 ^ 60) = 1 / 2 ^ 60" "rnd (2 * (1 / 2 ^ 60)) = 1 / 2 ^ 59"
  using rnd_power_int [of "- 60"] rnd_power_int [of "- 59"]
  by (simp_all add: power_int_minus field_simps)

lemma ex8_stop: "stop_angle_double Left 4 1 = 1 + 2 * M_PI"
proof -
  have "rnd (1 + 2 * M_PI) = 1 + 2 * M_PI"
    unfolding M_PI_def
    by (rule trans [OF rnd_eval [of 2 _ "2 ^ 50 + 884279719003555 * 8"]]) simp_all
  then show ?thesis by (simp add: stop_angle_double_def rnd_2M_PI)
qed

lemma ex8_test: "rnd (4 - (1 + 2 * M_PI)) = 3 - 2 * M_PI"
  unfolding M_PI_def
  by (rule trans [OF rnd_eval [of 1 _ "3 * 2 ^ 51 - 884279719003555 * 16"]]) simp_all

lemma ex8_same: "rnd (4 + 1 / 2 ^ 60) = 4"
  by (rule trans [OF rnd_eval [of 2 _ "2 ^ 52"]]) simp_all

lemma ex8_run: "arc_loop_double Left 3 1 0 [] = Some (1, [0])"
proof -
  have a: "rnd (- 3) = - 3"
    by (rule trans [OF rnd_eval [of 1 _ "- (3 * 2 ^ 51)"]]) simp_all
  have b: "rnd (- 2) = - 2"
    by (rule trans [OF rnd_eval [of 1 _ "- (2 ^ 52)"]]) simp_all
  show ?thesis
    by (subst arc_loop_double.simps, simp add: a dir_value_def,
        subst arc_loop_double.simps, simp add: b)
qed

lemma rnd_abs_bounds:
  "\<bar>t\<bar> * (1 - 1 / 2 ^ 53) \<le> \<bar>rnd t\<bar>" "\<bar>rnd t\<bar> \<le> \<bar>t\<bar> * (1 + 1 / 2 ^ 53)"
proof -
  have "\<bar>t\<bar> * (1 - 1 / 2 ^ 53) \<le> \<bar>rnd t\<bar> \<and> \<bar>rnd t\<bar> \<le> \<bar>t\<bar> * (1 + 1 / 2 ^ 53)"
  proof (cases "0 \<le> t")
    case True
    with rnd_nonneg [OF True] rnd_rel(1,2) [OF True] show ?thesis
      by (simp add: algebra_simps)
  next
    case False
    then have t: "t \<le> 0" by simp
    with rnd_nonpos [OF t] rnd_rel(3,4) [OF t] show ?thesis
      by (simp add: algebra_simps)
  qed
  then show "\<bar>t\<bar> * (1 - 1 / 2 ^ 53) \<le> \<bar>rnd t\<bar>" "\<bar>rnd t\<bar> \<le> \<bar>t\<bar> * (1 + 1 / 2 ^ 53)"
    by simp_all
qed

lemma rnd_sq_bounds:
  fixes t :: real
  shows "t\<^sup>2 * (1 - 1 / 2 ^ 53)\<^sup>2 \<le> (rnd t)\<^sup>2" and "(rnd t)\<^sup>2 \<le> t\<^sup>2 * (1 + 1 / 2 ^ 53)\<^sup>2"
proof -
  define L :: real where "L = 1 - 1 / 2 ^ 53"
  define U :: real where "U = 1 + 1 / 2 ^ 53"
  have L: "0 \<le> L" by (simp add: L_def)
  have lo: "\<bar>t\<bar> * L \<le> \<bar>rnd t\<bar>" and hi: "\<bar>rnd t\<bar> \<le> \<bar>t\<bar> * U"
    unfolding L_def U_def by (rule rnd_abs_bounds)+
  have "(\<bar>t\<bar> * L)\<^sup>2 \<le> \<bar>rnd t\<bar>\<^sup>2" using lo L by (intro power_mono) simp_all
  then have "t\<^sup>2 * L\<^sup>2 \<le> (rnd t)\<^sup>2" by (simp add: power_mult_distrib)
  then show "t\<^sup>2 * (1 - 1 / 2 ^ 53)\<^sup>2 \<le> (rnd t)\<^sup>2" unfolding L_def .
  have "\<bar>rnd t\<bar>\<^sup>2 \<le> (\<bar>t\<bar> * U)\<^sup>2" using hi by (intro power_mono) simp_all
  then have "(rnd t)\<^sup>2 \<le> t\<^sup>2 * U\<^sup>2" by (simp add: power_mult_distrib)
  then show "(rnd t)\<^sup>2 \<le> t\<^sup>2 * (1 + 1 / 2 ^ 53)\<^sup>2" unfolding U_def .
qed

lemma rnd_nonneg_bounds:
  assumes "0 \<le> x"
  shows "x * (1 - 1 / 2 ^ 53) \<le> rnd x" and "rnd x \<le> x * (1 + 1 / 2 ^ 53)"
  using rnd_lower [of x] rnd_upper [of x] assms by (simp_all add: algebra_simps)

lemma pow2_double_bounds:
  fixes t :: real
  shows "t\<^sup>2 * (1 - 1 / 2 ^ 53) ^ 3 \<le> pow2_double (rnd t)"
    and "pow2_double (rnd t) \<le> t\<^sup>2 * (1 + 1 / 2 ^ 53) ^ 3"
    and "0 \<le> pow2_double (rnd t)"
proof -
  define r where "r = rnd t"
  have r0: "0 \<le> r * r" by simp
  have p: "r * r * (1 - 1 / 2 ^ 53) \<le> pow2_double r" "pow2_double r \<le> r * r * (1 + 1 / 2 ^ 53)"
    unfolding pow2_double_def by (rule rnd_nonneg_bounds [OF r0])+
  have s: "t\<^sup>2 * (1 - 1 / 2 ^ 53)\<^sup>2 \<le> r * r" "r * r \<le> t\<^sup>2 * (1 + 1 / 2 ^ 53)\<^sup>2"
    using rnd_sq_bounds [of t] by (simp_all add: r_def power2_eq_square)
  have "t\<^sup>2 * (1 - 1 / 2 ^ 53)\<^sup>2 * (1 - 1 / 2 ^ 53) \<le> r * r * (1 - 1 / 2 ^ 53)"
    using s(1) by (intro mult_right_mono) simp_all
  with p(1) show "t\<^sup>2 * (1 - 1 / 2 ^ 53) ^ 3 \<le> pow2_double (rnd t)"
    by (simp add: r_def power3_eq_cube power2_eq_square algebra_simps)
  have "r * r * (1 + 1 / 2 ^ 53) \<le> t\<^sup>2 * (1 + 1 / 2 ^ 53)\<^sup>2 * (1 + 1 / 2 ^ 53)"
    using s(2) by (intro mult_right_mono) simp_all
  with p(2) show "pow2_double (rnd t) \<le> t\<^sup>2 * (1 + 1 / 2 ^ 53) ^ 3"
    by (simp add: r_def power3_eq_cube power2_eq_square algebra_simps)
  show "0 \<le> pow2_double (rnd t)" unfolding pow2_double_def by (rule rnd_nonneg) simp
qed

lemma sq_dist_double_bounds:
  "sq_dist p q * (1 - 1 / 2 ^ 53) ^ 4 \<le> sq_dist_double p q"
  "sq_dist_double p q \<le> sq_dist p q * (1 + 1 / 2 ^ 53) ^ 4"
  "0 \<le> sq_dist_double p q"
proof -
  define a where "a = pow2_double (rnd (fst p - fst q))"
  define b where "b = pow2_double (rnd (snd p - snd q))"
  define L :: real where "L = 1 - 1 / 2 ^ 53"
  define U :: real where "U = 1 + 1 / 2 ^ 53"
  have L: "0 \<le> L" and U: "0 \<le> U" by (simp_all add: L_def U_def)
  have a: "(fst p - fst q)\<^sup>2 * L ^ 3 \<le> a" "a \<le> (fst p - fst q)\<^sup>2 * U ^ 3" "0 \<le> a"
    unfolding a_def L_def U_def by (rule pow2_double_bounds)+
  have b: "(snd p - snd q)\<^sup>2 * L ^ 3 \<le> b" "b \<le> (snd p - snd q)\<^sup>2 * U ^ 3" "0 \<le> b"
    unfolding b_def L_def U_def by (rule pow2_double_bounds)+
  have ab: "0 \<le> a + b" using a(3) b(3) by simp
  have s: "sq_dist p q * L ^ 3 \<le> a + b" "a + b \<le> sq_dist p q * U ^ 3"
    using a b by (simp_all add: sq_dist_def algebra_simps)
  have r: "(a + b) * L \<le> rnd (a + b)" "rnd (a + b) \<le> (a + b) * U"
    unfolding L_def U_def by (rule rnd_nonneg_bounds [OF ab])+
  have "sq_dist p q * L ^ 3 * L \<le> (a + b) * L" using s(1) L by (intro mult_right_mono)
  with r(1) show "sq_dist p q * (1 - 1 / 2 ^ 53) ^ 4 \<le> sq_dist_double p q"
    by (simp add: sq_dist_double_def a_def b_def L_def power4_eq_xxxx power3_eq_cube algebra_simps)
  have "(a + b) * U \<le> sq_dist p q * U ^ 3 * U" using s(2) U by (intro mult_right_mono)
  with r(2) show "sq_dist_double p q \<le> sq_dist p q * (1 + 1 / 2 ^ 53) ^ 4"
    by (simp add: sq_dist_double_def a_def b_def U_def power4_eq_xxxx power3_eq_cube algebra_simps)
  show "0 \<le> sq_dist_double p q"
    unfolding sq_dist_double_def a_def [symmetric] b_def [symmetric] by (rule rnd_nonneg [OF ab])
qed

lemma sq_dist_double_less:
  assumes "sq_dist_double p c1 \<le> sq_dist_double p c2"
  shows "sq_dist p c1 \<le> (1 + 1 / 2 ^ 49) * sq_dist p c2"
proof -
  define L :: real where "L = (1 - 1 / 2 ^ 53) ^ 4"
  define U :: real where "U = (1 + 1 / 2 ^ 53) ^ 4"
  have L: "0 < L" by (simp add: L_def)
  have UL: "U \<le> (1 + 1 / 2 ^ 49) * L" by (simp add: L_def U_def power_divide)
  have "sq_dist p c1 * L \<le> sq_dist p c2 * U"
    using sq_dist_double_bounds(1) [of p c1] sq_dist_double_bounds(2) [of p c2] assms
    unfolding L_def U_def by linarith
  also have "\<dots> \<le> sq_dist p c2 * ((1 + 1 / 2 ^ 49) * L)"
    using UL by (intro mult_left_mono) (simp_all add: sq_dist_def)
  finally have "sq_dist p c1 * L \<le> ((1 + 1 / 2 ^ 49) * sq_dist p c2) * L"
    by (simp add: algebra_simps)
  then show ?thesis using L by (simp only: mult_le_cancel_right)
qed

lemma turningCenter_double_eq:
  "turningCenter_double cfg x_q y_q sn cs x_n y_n =
     (if sq_dist_double (x_n, y_n) (fst (center_candidates_double cfg x_q y_q sn cs))
         < sq_dist_double (x_n, y_n) (snd (center_candidates_double cfg x_q y_q sn cs))
      then fst (center_candidates_double cfg x_q y_q sn cs)
      else snd (center_candidates_double cfg x_q y_q sn cs))"
  by (simp add: turningCenter_double_def center_candidates_double_def sq_dist_double_def Let_def)

lemma sq_dist_nonneg: "0 \<le> sq_dist p q" by (simp add: sq_dist_def)

lemma rnd_of_int:
  assumes "\<bar>k\<bar> \<le> 2 ^ 53"
  shows "rnd (of_int k) = of_int k"
proof (cases "k = 0")
  case True
  then show ?thesis by simp
next
  case False
  define x :: real where "x = of_int k"
  define e where "e = \<lfloor>log 2 \<bar>x\<bar>\<rfloor>"
  have x: "x \<noteq> 0" using False by (simp add: x_def)
  have b: "2 powi e \<le> \<bar>x\<bar>" "\<bar>x\<bar> < 2 powi (e + 1)" using binade [OF x] by (simp_all add: e_def)
  have "\<bar>x\<bar> \<le> 2 ^ 53" using assms unfolding x_def
    by (metis of_int_abs of_int_le_iff of_int_numeral of_int_power)
  with b(1) have "(2::real) powi e \<le> 2 powi 53" by simp
  have e: "e \<le> 53"
  proof (rule ccontr)
    assume "\<not> e \<le> 53"
    then have "54 \<le> e" by simp
    then have "(2::real) powi 54 \<le> 2 powi e" by (intro power_int_increasing) simp_all
    with \<open>(2::real) powi e \<le> 2 powi 53\<close> show False by simp
  qed
  show ?thesis
  proof (cases "e \<le> 52")
    case True
    define m where "m = nat (52 - e)"
    have m: "e - 52 = - int m" using True by (simp add: m_def)
    have q: "x / 2 powi (e - 52) = of_int (k * 2 ^ m)"
      unfolding m by (simp add: power_int_minus x_def field_simps)
    have "rnd x = 2 powi (e - 52) * of_int (round_even (x / 2 powi (e - 52)))"
      by (rule rnd_eq [OF b])
    also have "\<dots> = 2 powi (e - 52) * of_int (k * 2 ^ m)"
      by (simp only: q round_even_of_int)
    also have "\<dots> = x" unfolding m by (simp add: power_int_minus x_def field_simps)
    finally show ?thesis by (simp add: x_def)
  next
    case False
    with e have "e = 53" by simp
    with b(1) \<open>\<bar>x\<bar> \<le> 2 ^ 53\<close> have "\<bar>x\<bar> = 2 powi 53" by simp
    then consider "x = 2 powi 53" | "x = - (2 powi 53)" by (auto simp: abs_if split: if_splits)
    then show ?thesis
    proof cases
      case 1
      then show ?thesis unfolding x_def [symmetric] by (simp only: rnd_power_int)
    next
      case 2
      have "rnd (- (2 powi 53)) = - (2 powi 53)"
        by (rule trans [OF rnd_eval [of 53 _ "- (2 ^ 52)"]]) simp_all
      with 2 show ?thesis unfolding x_def [symmetric] by simp
    qed
  qed
qed

lemma rnd_numeral [simp]:
  "numeral n \<le> (2 ^ 53 :: int) \<Longrightarrow> rnd (numeral n) = numeral n"
  "numeral n \<le> (2 ^ 53 :: int) \<Longrightarrow> rnd (- numeral n) = - numeral n"
  using rnd_of_int [of "numeral n"] rnd_of_int [of "- numeral n"] by simp_all

lemma rnd_m1 [simp]: "rnd (- 1) = - 1"
  using rnd_of_int [of "- 1"] by simp

lemma ex3_near: "rnd (1 - 1 / 2 ^ 60) = 1" "rnd (- 1 - 1 / 2 ^ 60) = - 1"
  by (rule trans [OF rnd_eval [of "- 1" _ "2 ^ 53"]], simp_all)
     (rule trans [OF rnd_eval [of 0 _ "- (2 ^ 52)"]], simp_all)

lemma generatePath_last:
  assumes "generatePath cfg clk x_q y_q x_n y_n x_cr y_cr x_lc y_lc dir goal pth = Some p"
  shows "poses p \<noteq> [] \<and> last (poses p) = goal"
  using assms unfolding generatePath_eq by (auto split: option.splits)

lemma makePath_double_cases:
  fixes cfg :: config and sin_d cos_d :: "real \<Rightarrow> real" and getYaw :: "quaternion \<Rightarrow> real"
    and start goal :: pose_stamped
  defines "dc \<equiv> target_center_distance_double cfg (ps_x start) (ps_y start)
           (sin_d (getYaw (orientation (ps_pose start))))
           (cos_d (getYaw (orientation (ps_pose start)))) (ps_x goal) (ps_y goal)"
  shows "(dc < turningRadius cfg
            \<and> makePath_double cfg sin_d cos_d clk getYaw start goal pth = Some (False, pth))
       \<or> (\<not> dc < turningRadius cfg
            \<and> (makePath_double cfg sin_d cos_d clk getYaw start goal pth = None
               \<or> (\<exists>p. makePath_double cfg sin_d cos_d clk getYaw start goal pth = Some (True, p)
                      \<and> poses p \<noteq> [] \<and> last (poses p) = goal)))"
  unfolding dc_def makePath_double_def target_center_distance_double_def sq_dist_double_def
    Let_def case_prod_beta
  by (auto split: option.split dest: generatePath_last)

lemma getTargetHeading_double_cases:
  fixes cfg :: config and sin_d cos_d :: "real \<Rightarrow> real" and x_q y_q theta_q x_n y_n :: real
  defines "dc \<equiv> target_center_distance_double cfg x_q y_q (sin_d theta_q) (cos_d theta_q) x_n y_n"
  shows "(dc < turningRadius cfg
            \<and> getTargetHeading_double cfg sin_d cos_d x_q y_q theta_q x_n y_n yawTarget
                = (False, yawTarget))
       \<or> (\<not> dc < turningRadius cfg
            \<and> fst (getTargetHeading_double cfg sin_d cos_d x_q y_q theta_q x_n y_n yawTarget))"
  unfolding dc_def getTargetHeading_double_def target_center_distance_double_def sq_dist_double_def
    Let_def case_prod_beta
  by simp

lemma distance_double_bounds:
  "sqrt (sq_dist p c) * (1 - 1 / 2 ^ 53) ^ 3 \<le> rnd (sqrt (sq_dist_double p c))"
  "rnd (sqrt (sq_dist_double p c)) \<le> sqrt (sq_dist p c) * (1 + 1 / 2 ^ 53) ^ 3"
proof -
  define L :: real where "L = 1 - 1 / 2 ^ 53"
  define U :: real where "U = 1 + 1 / 2 ^ 53"
  have L: "0 \<le> L" and U: "0 \<le> U" by (simp_all add: L_def U_def)
  define D where "D = sq_dist p c"
  define E where "E = sq_dist_double p c"
  have D: "0 \<le> D" by (simp add: D_def sq_dist_def)
  have E: "D * L ^ 4 \<le> E" "E \<le> D * U ^ 4" "0 \<le> E"
    unfolding D_def E_def L_def U_def by (rule sq_dist_double_bounds)+
  have sq: "sqrt (D * L ^ 4) = sqrt D * L\<^sup>2" "sqrt (D * U ^ 4) = sqrt D * U\<^sup>2"
    using L U by (simp_all add: real_sqrt_mult power4_eq_xxxx power2_eq_square)
  have s: "sqrt D * L\<^sup>2 \<le> sqrt E" "sqrt E \<le> sqrt D * U\<^sup>2"
    using E(1,2) unfolding sq [symmetric] by simp_all
  have sE: "0 \<le> sqrt E" using E(3) by simp
  have r: "sqrt E * L \<le> rnd (sqrt E)" "rnd (sqrt E) \<le> sqrt E * U"
    unfolding L_def U_def by (rule rnd_nonneg_bounds [OF sE])+
  have "sqrt D * L\<^sup>2 * L \<le> sqrt E * L" using s(1) L by (intro mult_right_mono)
  with r(1) show "sqrt (sq_dist p c) * (1 - 1 / 2 ^ 53) ^ 3 \<le> rnd (sqrt (sq_dist_double p c))"
    by (simp add: D_def E_def L_def power3_eq_cube power2_eq_square algebra_simps)
  have "sqrt E * U \<le> sqrt D * U\<^sup>2 * U" using s(2) U by (intro mult_right_mono)
  with r(2) show "rnd (sqrt (sq_dist_double p c)) \<le> sqrt (sq_dist p c) * (1 + 1 / 2 ^ 53) ^ 3"
    by (simp add: D_def E_def U_def power3_eq_cube power2_eq_square algebra_simps)
qed

lemma check_inside:
  assumes R: "0 < turningRadius cfg"
    and d: "exact_center_distance cfg x_q y_q sn cs x_n y_n \<le> turningRadius cfg * (1 - 1 / 2 ^ 51)"
  shows "target_center_distance_double cfg x_q y_q sn cs x_n y_n < turningRadius cfg"
proof -
  define U :: real where "U = (1 + 1 / 2 ^ 53) ^ 3"
  have U: "0 \<le> U" by (simp add: U_def)
  have c: "(1 - 1 / 2 ^ 51) * U < 1" by (simp add: U_def power_divide)
  have "target_center_distance_double cfg x_q y_q sn cs x_n y_n
      \<le> exact_center_distance cfg x_q y_q sn cs x_n y_n * U"
    unfolding target_center_distance_double_def exact_center_distance_def U_def
    by (rule distance_double_bounds)
  also have "\<dots> \<le> turningRadius cfg * (1 - 1 / 2 ^ 51) * U"
    using d U by (intro mult_right_mono)
  also have "\<dots> = turningRadius cfg * ((1 - 1 / 2 ^ 51) * U)" by simp
  also have "\<dots> < turningRadius cfg * 1" using c R by (intro mult_strict_left_mono)
  finally show ?thesis by simp
qed

lemma check_outside:
  assumes R: "0 < turningRadius cfg"
    and d: "turningRadius cfg * (1 + 1 / 2 ^ 51) \<le> exact_center_distance cfg x_q y_q sn cs x_n y_n"
  shows "\<not> target_center_distance_double cfg x_q y_q sn cs x_n y_n < turningRadius cfg"
proof -
  define L :: real where "L = (1 - 1 / 2 ^ 53) ^ 3"
  have L: "0 \<le> L" by (simp add: L_def)
  have c: "1 \<le> (1 + 1 / 2 ^ 51) * L" by (simp add: L_def power_divide)
  have "turningRadius cfg * 1 \<le> turningRadius cfg * ((1 + 1 / 2 ^ 51) * L)"
    using c R by (intro mult_left_mono) simp_all
  also have "\<dots> = turningRadius cfg * (1 + 1 / 2 ^ 51) * L" by simp
  also have "\<dots> \<le> exact_center_distance cfg x_q y_q sn cs x_n y_n * L"
    using d L by (intro mult_right_mono)
  also have "\<dots> \<le> target_center_distance_double cfg x_q y_q sn cs x_n y_n"
    unfolding target_center_distance_double_def exact_center_distance_def L_def
    by (rule distance_double_bounds)
  finally show ?thesis by simp
qed

lemma rnd_sqrt_eval:
  assumes "(2 powi e)\<^sup>2 \<le> s" and "s < (2 powi (e + 1))\<^sup>2"
    and "((of_int m - 1 / 2) * 2 powi (e - 52))\<^sup>2 < s"
    and "s < ((of_int m + 1 / 2) * 2 powi (e - 52))\<^sup>2"
    and "1 \<le> m"
  shows "rnd (sqrt s) = of_int m * 2 powi (e - 52)"
proof -
  have q: "0 < (2::real) powi (e - 52)" by simp
  have m: "(1::real) \<le> of_int m" using assms(5) by simp
  have lo: "2 powi e \<le> sqrt s" using assms(1) by (rule real_le_rsqrt)
  have hi: "sqrt s < 2 powi (e + 1)" using assms(2) by (intro real_less_lsqrt) simp_all
  have a: "(of_int m - 1 / 2) * 2 powi (e - 52) < sqrt s" using assms(3) by (rule real_less_rsqrt)
  have b: "sqrt s < (of_int m + 1 / 2) * 2 powi (e - 52)"
    using assms(4) m q by (intro real_less_lsqrt) simp_all
  have s0: "0 \<le> sqrt s" using lo by (meson order_trans zero_le_power_int zero_le_numeral)
  have "of_int m - 1 / 2 < sqrt s / 2 powi (e - 52)"
    using a q by (simp only: pos_less_divide_eq)
  moreover have "sqrt s / 2 powi (e - 52) < of_int m + 1 / 2"
    using b q by (simp only: pos_divide_less_eq)
  ultimately have "\<bar>of_int m - sqrt s / 2 powi (e - 52)\<bar> < 1 / 2" by linarith
  moreover have "2 powi e \<le> \<bar>sqrt s\<bar>" "\<bar>sqrt s\<bar> < 2 powi (e + 1)" using lo hi s0 by simp_all
  ultimately show ?thesis by (intro rnd_eval)
qed

lemma ex2_center:
  "turningCenter_double \<lparr>turningRadius = 3602879701896397 / 2 ^ 55, pathResolution = 1 / 20\<rparr> 0 0 0 1 (5764607523034235 / 2 ^ 56) (5764607523034235 / 2 ^ 55) = (0, 3602879701896397 / 2 ^ 55)"
  and ex2_distance:
  "rnd (sqrt (sq_dist_double (5764607523034235 / 2 ^ 56, 5764607523034235 / 2 ^ 55) (0, 3602879701896397 / 2 ^ 55))) = 3602879701896397 / 2 ^ 55"
proof -
  have a1: "rnd (3602879701896397 / 36028797018963968) = 3602879701896397 / 36028797018963968"
    by (rule trans [OF rnd_eval [of "- 4" _ 7205759403792794]]) simp_all
  have a2: "rnd (- (3602879701896397 / 36028797018963968)) = - (3602879701896397 / 36028797018963968)"
    by (rule trans [OF rnd_eval [of "- 4" _ "- 7205759403792794"]]) simp_all
  have a3: "rnd (5764607523034235 / 72057594037927936) = 5764607523034235 / 72057594037927936"
    by (rule trans [OF rnd_eval [of "- 4" _ 5764607523034235]]) simp_all
  have a4: "rnd (1170935903116329 / 4503599627370496) = 1170935903116329 / 4503599627370496"
    by (rule trans [OF rnd_eval [of "- 2" _ 4683743612465316]]) simp_all
  have a5: "rnd (33230699894622898206100982035225 / 5192296858534827628530496329220096) = 7378697629483821 / 1152921504606846976"
    by (rule trans [OF rnd_eval [of "- 8" _ 7378697629483821]]) simp_all
  have a6: "rnd (1371090889206853014333706436241 / 20282409603651670423947251286016) = 4871093356963929 / 72057594037927936"
    by (rule trans [OF rnd_eval [of "- 4" _ 4871093356963929]]) simp_all
  have a7: "rnd (85316191340906685 / 1152921504606846976) = 1333065489701667 / 18014398509481984"
    by (rule trans [OF rnd_eval [of "- 4" _ 5332261958806668]]) simp_all
  have a8: "rnd (1080863910568919 / 18014398509481984) = 1080863910568919 / 18014398509481984"
    by (rule trans [OF rnd_eval [of "- 5" _ 8646911284551352]]) simp_all
  have a9: "rnd (1168266793170336129950248828561 / 324518553658426726783156020576256) = 4150517416584649 / 1152921504606846976"
    by (rule trans [OF rnd_eval [of "- 9" _ 8301034833169298]]) simp_all
  have a10: "rnd (5764607523034235 / 576460752303423488) = 5764607523034235 / 576460752303423488"
    by (rule trans [OF rnd_eval [of "- 7" _ 5764607523034235]]) simp_all
  have as: "rnd (sqrt (5764607523034235 / 576460752303423488)) = 3602879701896397 / 36028797018963968"
    by (rule trans [OF rnd_sqrt_eval [of "- 4" _ 7205759403792794]]) (simp_all add: power_int_minus power_divide)
  show "turningCenter_double \<lparr>turningRadius = 3602879701896397 / 2 ^ 55, pathResolution = 1 / 20\<rparr> 0 0 0 1 (5764607523034235 / 2 ^ 56) (5764607523034235 / 2 ^ 55) = (0, 3602879701896397 / 2 ^ 55)"
    by (simp add: turningCenter_double_def pow2_double_def a1 a2 a3 a4 a5 a6 a7 a8 a9 a10 as)
  show "rnd (sqrt (sq_dist_double (5764607523034235 / 2 ^ 56, 5764607523034235 / 2 ^ 55) (0, 3602879701896397 / 2 ^ 55))) = 3602879701896397 / 2 ^ 55"
    by (simp add: sq_dist_double_def pow2_double_def a1 a2 a3 a4 a5 a6 a7 a8 a9 a10 as)
qed

lemma ex1_center:
  "turningCenter_double \<lparr>turningRadius = 8782019273372467 / 2 ^ 52, pathResolution = 1 / 20\<rparr> 0 (- (8782019273372467 / 2 ^ 52)) 0 1 (3314548244104799 / 2 ^ 51) (5760116515131673 / 2 ^ 52) = (0, 0)"
  and ex1_distance:
  "rnd (sqrt (sq_dist_double (3314548244104799 / 2 ^ 51, 5760116515131673 / 2 ^ 52) (0, 0))) = 4391009636686233 / 2 ^ 51"
proof -
  have b1: "rnd (8782019273372467 / 4503599627370496) = 8782019273372467 / 4503599627370496"
    by (rule trans [OF rnd_eval [of 0 _ 8782019273372467]]) simp_all
  have b2: "rnd (- (8782019273372467 / 2251799813685248)) = - (8782019273372467 / 2251799813685248)"
    by (rule trans [OF rnd_eval [of 1 _ "- 8782019273372467"]]) simp_all
  have b3: "rnd (3314548244104799 / 2251799813685248) = 3314548244104799 / 2251799813685248"
    by (rule trans [OF rnd_eval [of 0 _ 6629096488209598]]) simp_all
  have b4: "rnd (23324155061876607 / 4503599627370496) = 182219961420911 / 35184372088832"
    by (rule trans [OF rnd_eval [of 2 _ 5831038765469152]]) simp_all
  have b5: "rnd (10986230062498206218856894830401 / 5070602400912917605986812821504) = 609858278460729 / 281474976710656"
    by (rule trans [OF rnd_eval [of 1 _ 4878866227685832]]) simp_all
  have b6: "rnd (33204114340238293186108069921 / 1237940039285380274899124224) = 7549741517377309 / 281474976710656"
    by (rule trans [OF rnd_eval [of 4 _ 7549741517377309]]) simp_all
  have b7: "rnd (4079799897919019 / 140737488355328) = 4079799897919019 / 140737488355328"
    by (rule trans [OF rnd_eval [of 4 _ 8159599795838038]]) simp_all
  have b8: "rnd (5760116515131673 / 4503599627370496) = 5760116515131673 / 4503599627370496"
    by (rule trans [OF rnd_eval [of 0 _ 5760116515131673]]) simp_all
  have b9: "rnd (33178942267892648868776527778929 / 20282409603651670423947251286016) = 7367205127704645 / 4503599627370496"
    by (rule trans [OF rnd_eval [of 0 _ 7367205127704645]]) simp_all
  have b10: "rnd (17124937583076309 / 4503599627370496) = 4281234395769077 / 1125899906842624"
    by (rule trans [OF rnd_eval_tie_down [of 1 _ 8562468791538154]]) simp_all
  have bs: "rnd (sqrt (4281234395769077 / 1125899906842624)) = 4391009636686233 / 2251799813685248"
    by (rule trans [OF rnd_sqrt_eval [of 0 _ 8782019273372466]]) (simp_all add: power_int_minus power_divide)
  show "turningCenter_double \<lparr>turningRadius = 8782019273372467 / 2 ^ 52, pathResolution = 1 / 20\<rparr> 0 (- (8782019273372467 / 2 ^ 52)) 0 1 (3314548244104799 / 2 ^ 51) (5760116515131673 / 2 ^ 52) = (0, 0)"
    by (simp add: turningCenter_double_def pow2_double_def b1 b2 b3 b4 b5 b6 b7 b8 b9 b10 bs)
  show "rnd (sqrt (sq_dist_double (3314548244104799 / 2 ^ 51, 5760116515131673 / 2 ^ 52) (0, 0))) = 4391009636686233 / 2 ^ 51"
    by (simp add: sq_dist_double_def pow2_double_def b1 b2 b3 b4 b5 b6 b7 b8 b9 b10 bs)
qed

lemma sin_cos_double_0 [simp]: "sin_double 0 = 0" "cos_double 0 = 1"
  by (simp_all add: sin_double_def cos_double_def)

lemma ex_center_double:
  "turningCenter_double \<lparr>turningRadius = 1, pathResolution = 7 / 8\<rparr> 0 0 0 1 (- 10) 2 = (0, 1)"
  "turningCenter_double \<lparr>turningRadius = 1, pathResolution = 7 / 8\<rparr> 0 0 0 1 0 1 = (0, 1)"
  by (simp_all add: turningCenter_double_def pow2_double_def)

lemma ex_check_double:
  "\<not> rnd (sqrt 101) < 1"
proof -
  have "(1::real) \<le> sqrt 101" by (rule real_le_rsqrt) simp
  then have "2 powi 0 \<le> sqrt 101" by simp
  then have "2 powi 0 \<le> rnd (sqrt 101)" by (rule rnd_ge_pow2)
  then show ?thesis by simp
qed

lemma makePath_double_agrees:
  fixes cfg :: config and sin_d cos_d :: "real \<Rightarrow> real" and getYaw :: "quaternion \<Rightarrow> real"
    and start goal :: pose_stamped
  defines "theta_q \<equiv> getYaw (orientation (ps_pose start))"
  assumes c: "turningCenter_double cfg (ps_x start) (ps_y start) (sin_d theta_q) (cos_d theta_q)
        (ps_x goal) (ps_y goal)
      = turningCenter cfg (ps_x start) (ps_y start) theta_q (ps_x goal) (ps_y goal)"
    and t: "target_center_distance_double cfg (ps_x start) (ps_y start) (sin_d theta_q) (cos_d theta_q)
        (ps_x goal) (ps_y goal) < turningRadius cfg
      \<longleftrightarrow> target_center_distance cfg (ps_x start) (ps_y start) theta_q (ps_x goal) (ps_y goal)
          < turningRadius cfg"
  shows "makePath_double cfg sin_d cos_d clk getYaw start goal pth
       = makePath cfg clk getYaw start goal pth"
  using t unfolding makePath_double_def makePath_def Let_def case_prod_beta
    target_center_distance_double_def target_center_distance_def sq_dist_double_def
    theta_q_def c [unfolded theta_q_def] fst_conv snd_conv
  by simp

lemma ex_makePath_double:
  "makePath_double \<lparr>turningRadius = 1, pathResolution = 7 / 8\<rparr> sin_double cos_double steady_clock
      yaw_of (pose_at 0 0) (pose_at (- 10) 2) empty_path
   = makePath \<lparr>turningRadius = 1, pathResolution = 7 / 8\<rparr> steady_clock yaw_of
      (pose_at 0 0) (pose_at (- 10) 2) empty_path"
proof (rule makePath_double_agrees)
  show "turningCenter_double \<lparr>turningRadius = 1, pathResolution = 7 / 8\<rparr> (ps_x (pose_at 0 0))
     (ps_y (pose_at 0 0)) (sin_double (yaw_of (orientation (ps_pose (pose_at 0 0)))))
     (cos_double (yaw_of (orientation (ps_pose (pose_at 0 0))))) (ps_x (pose_at (- 10) 2))
     (ps_y (pose_at (- 10) 2)) =
    turningCenter \<lparr>turningRadius = 1, pathResolution = 7 / 8\<rparr> (ps_x (pose_at 0 0))
     (ps_y (pose_at 0 0)) (yaw_of (orientation (ps_pose (pose_at 0 0))))
     (ps_x (pose_at (- 10) 2)) (ps_y (pose_at (- 10) 2))"
    by (simp add: ex_center_double)
  show "(target_center_distance_double \<lparr>turningRadius = 1, pathResolution = 7 / 8\<rparr>
      (ps_x (pose_at 0 0)) (ps_y (pose_at 0 0))
      (sin_double (yaw_of (orientation (ps_pose (pose_at 0 0)))))
      (cos_double (yaw_of (orientation (ps_pose (pose_at 0 0))))) (ps_x (pose_at (- 10) 2))
      (ps_y (pose_at (- 10) 2))
     < turningRadius \<lparr>turningRadius = 1, pathResolution = 7 / 8\<rparr>) =
    (target_center_distance \<lparr>turningRadius = 1, pathResolution = 7 / 8\<rparr> (ps_x (pose_at 0 0))
      (ps_y (pose_at 0 0)) (yaw_of (orientation (ps_pose (pose_at 0 0))))
      (ps_x (pose_at (- 10) 2)) (ps_y (pose_at (- 10) 2))
     < turningRadius \<lparr>turningRadius = 1, pathResolution = 7 / 8\<rparr>)"
    by (simp add: target_center_distance_double_def ex_center_double sq_dist_double_def
        pow2_double_def ex_check_double target_center_distance_def)
qed

section \<open>The claims\<close>










text \<open>
  C5. Whenever the arc loop returns, each sample it has appended lies at distance
  exactly the turning radius from the centre \<open>(x_cr, y_cr)\<close> (reals stand for doubles,
  so the floating tolerance is zero).
\<close>

theorem arc_samples_at_radius:
  assumes "arc_loop cfg clk x_cr y_cr dir stopAngle inc i n ps = Some (n', ps')"
    and "0 < turningRadius cfg"
  shows "\<exists>ys. ps' = ps @ ys \<and>
           (\<forall>p\<in>set ys. sqrt ((ps_x p - x_cr)\<^sup>2 + (ps_y p - y_cr)\<^sup>2) = turningRadius cfg)"
  using arc_loop_on_circle [OF assms(1)] assms(2) by simp

theorem arc_samples_at_radius_witness:
  "\<exists>ys. [sample_point 0 1 0] = [] @ ys \<and>
      (\<forall>p\<in>set ys. sqrt ((ps_x p - 0)\<^sup>2 + (ps_y p - 0)\<^sup>2) = 1)"
proof -
  have "arc_loop \<lparr>turningRadius = 1, pathResolution = 1\<rparr> (\<lambda>n. n) 0 0 Left 3 1 0 0 [] =
      Some (1, [sample_point 0 1 0])"
    by (subst arc_loop.simps, simp add: dir_value_def, subst arc_loop.simps, simp)
  from arc_samples_at_radius [OF this] show ?thesis by simp
qed

text \<open>
  C6 at a failing input. With the default configuration (turning radius 1.5, path
  resolution 0.05), the start pose \<open>(0, 0)\<close> with heading 0 and the goal \<open>(1.5, 10)\<close>, the
  tangent point is \<open>(1.5, 1.5)\<close> and the straight segment to the goal is vertical and
  8.5 long. The line loop compares only x-coordinates, so it emits no sample at all: the
  path is the arc samples followed directly by the goal.
\<close>

theorem vertical_segment_gets_no_samples:
  "selected_tangent_point \<lparr>turningRadius = 3 / 2, pathResolution = 1 / 20\<rparr> 0 0 0 (3 / 2) 10
     = (3 / 2, 3 / 2)
   \<and> (\<exists>N. makePath \<lparr>turningRadius = 3 / 2, pathResolution = 1 / 20\<rparr> steady_clock yaw_of
          (pose_at 0 0) (pose_at (3 / 2) 10) empty_path =
     Some (True, empty_path\<lparr>path_header := (path_header empty_path)\<lparr>stamp := 0, frame_id := ''map''\<rparr>,
             poses := arc_samples \<lparr>turningRadius = 3 / 2, pathResolution = 1 / 20\<rparr> steady_clock
                        0 (3 / 2) Left (1 / 30) (start_angle 0 0 0 (3 / 2)) 1 N
                      @ [pose_at (3 / 2) 10]\<rparr>))"
proof -
  let ?cfg = "\<lparr>turningRadius = 3 / 2, pathResolution = 1 / 20\<rparr>"
  have "\<exists>N. generatePath ?cfg steady_clock 0 0 (3 / 2) 10 0 (3 / 2) (3 / 2) (3 / 2)
          Left (pose_at (3 / 2) 10) empty_path =
      Some (empty_path\<lparr>path_header := (path_header empty_path)\<lparr>stamp := steady_clock 0, frame_id := ''map''\<rparr>,
             poses := arc_samples ?cfg steady_clock 0 (3 / 2) Left
                        (pathResolution ?cfg / turningRadius ?cfg)
                        (start_angle 0 0 0 (3 / 2)) 1 N
                      @ line_samples ?cfg steady_clock (3 / 2) (3 / 2)
                          ((3 / 2 - 3 / 2) / sqrt ((3 / 2 - 3 / 2) * (3 / 2 - 3 / 2) + (10 - 3 / 2) * (10 - 3 / 2)))
                          ((10 - 3 / 2) / sqrt ((3 / 2 - 3 / 2) * (3 / 2 - 3 / 2) + (10 - 3 / 2) * (10 - 3 / 2))) 0
                          (1 + N) 0
                      @ [pose_at (3 / 2) 10]\<rparr>)"
    by (rule generatePath_line_run) (simp_all add: line_cond_def)
  moreover have "\<not> sqrt ((3 / 2)\<^sup>2 + (17 / 2)\<^sup>2) * 2 < 3"
    using real_sqrt_sum_squares_ge1 [of "3 / 2" "17 / 2"] by linarith
  ultimately have "\<exists>N. makePath ?cfg steady_clock yaw_of (pose_at 0 0) (pose_at (3 / 2) 10) empty_path =
     Some (True, empty_path\<lparr>path_header := (path_header empty_path)\<lparr>stamp := 0, frame_id := ''map''\<rparr>,
             poses := arc_samples ?cfg steady_clock 0 (3 / 2) Left (1 / 30) (start_angle 0 0 0 (3 / 2)) 1 N
                      @ [pose_at (3 / 2) 10]\<rparr>)"
    by (simp add: makePath_eq exB_selected exB_dir exB_center target_center_distance_def
        steady_clock_def line_samples_def)
  with exB_selected show ?thesis by blast
qed




text \<open>
  C8, as stated, fails. With the start angle 4, the stop angle 1 (both in \<open>[0, 2 pi)\<close>),
  the direction \<open>Left\<close>, the radius 1 and the sample spacing \<open>2\<^sup>-\<^sup>6\<^sup>0\<close>, which is positive,
  the adjusted stop angle is \<open>1 + 2 * M_PI\<close>, the loop test holds at \<open>i = 4\<close>, and
  \<open>i += dir * angleIncrement\<close> leaves \<open>i\<close> at 4, the increment being less than half a unit
  in the last place of 4: the arc loop does not end.
\<close>

theorem arc_loop_stalls_counterexample:
  "0 \<le> (4::real) \<and> 4 < 2 * pi \<and> 0 \<le> (1::real) \<and> 1 < 2 * pi
   \<and> 0 < pathResolution \<lparr>turningRadius = 1, pathResolution = 1 / 2 ^ 60\<rparr>
   \<and> 0 < turningRadius \<lparr>turningRadius = 1, pathResolution = 1 / 2 ^ 60\<rparr>
   \<and> arc_loop_double Left (stop_angle_double Left 4 1)
        (rnd (pathResolution \<lparr>turningRadius = 1, pathResolution = 1 / 2 ^ 60\<rparr>
              / turningRadius \<lparr>turningRadius = 1, pathResolution = 1 / 2 ^ 60\<rparr>)) 4 [] = None"
proof -
  have test: "rnd (2 * (1 / 2 ^ 60)) < \<bar>rnd (4 - (1 + 2 * M_PI))\<bar>"
    unfolding rnd_tiny ex8_test by (simp add: M_PI_def)
  have "dir_value Left * (1 / 2 ^ 60) = 1 / 2 ^ 60" by (simp add: dir_value_def)
  then have same: "rnd (4 + rnd (dir_value Left * (1 / 2 ^ 60))) = 4"
    by (simp only: rnd_tiny ex8_same)
  have "arc_loop_double Left (1 + 2 * M_PI) (1 / 2 ^ 60) 4 [] = None"
    using test same by (rule arc_loop_double_stalls)
  moreover have "rnd (pathResolution \<lparr>turningRadius = 1, pathResolution = 1 / 2 ^ 60\<rparr>
              / turningRadius \<lparr>turningRadius = 1, pathResolution = 1 / 2 ^ 60\<rparr>) = 1 / 2 ^ 60"
    using rnd_tiny(1) by simp
  ultimately show ?thesis using pi_ge_3 by (simp only: ex8_stop) simp
qed

text \<open>
  C8, amended. For a start angle and a stop angle from 0 to \<open>2 * M_PI\<close> (the doubles in
  \<open>[0, 2 pi)\<close> are the doubles in that range) and an angle increment \<open>s / R\<close>, as computed,
  of at least \<open>2\<^sup>-\<^sup>4\<^sup>6\<close>, the arc loop run from the start angle to the adjusted stop angle
  ends. The adjusted stop angle is not behind the start angle in the commanded
  direction. The values of \<open>i\<close> for which a sample is emitted begin with the start angle
  and advance in the commanded direction (they grow for \<open>Left\<close> and fall for \<open>Right\<close>),
  each step being between three quarters and five quarters of the increment; they all
  lie between the start angle and the adjusted stop angle, so there are at most
  \<open>4 / 3\<close> times the swept angle over the increment of them; and the loop ends at a value
  of \<open>i\<close>, not beyond the adjusted stop angle, for which the loop test is false.
\<close>

theorem arc_loop_double_terminates_monotone:
  fixes cfg :: config and dir :: Dir and startAngle stopAngle :: real
  defines "inc \<equiv> rnd (pathResolution cfg / turningRadius cfg)"
  defines "stop \<equiv> stop_angle_double dir startAngle stopAngle"
  assumes "0 \<le> startAngle" "startAngle \<le> 2 * M_PI" "0 \<le> stopAngle" "stopAngle \<le> 2 * M_PI"
    and "1 / 2 ^ 46 \<le> inc"
  shows "\<exists>j as. arc_loop_double dir stop inc startAngle [] = Some (j, as)
           \<and> \<not> rnd (2 * inc) < \<bar>rnd (j - stop)\<bar>
           \<and> advancing dir inc (as @ [j])
           \<and> hd (as @ [j]) = startAngle
           \<and> (\<forall>a\<in>set as. 0 \<le> dir_value dir * (a - startAngle) \<and> 0 < dir_value dir * (stop - a))
           \<and> 0 \<le> dir_value dir * (stop - j)
           \<and> 0 \<le> dir_value dir * (stop - startAngle)
           \<and> real (length as) * (3 * inc / 4) \<le> dir_value dir * (stop - startAngle)"
proof -
  have ahead: "0 \<le> dir_value dir * (stop - startAngle)" and stop13: "\<bar>stop\<bar> \<le> 13"
    unfolding stop_def by (rule stop_angle_double_ahead [OF assms(3-6)])+
  have start13: "\<bar>startAngle\<bar> \<le> 13" using assms(3,4) by (simp add: M_PI_def)
  have "0 < inc / 2" using assms(7) by (simp add: field_simps)
  from reals_Archimedean3 [OF this] obtain m where
    "dir_value dir * (stop - startAngle) < real m * (inc / 2)" by blast
  then have m: "dir_value dir * (stop - startAngle) \<le> real m * (inc / 2)" by simp
  from arc_loop_double_run [OF assms(7) stop13 start13 ahead m, of "[]"] obtain j bs where
    run: "arc_loop_double dir stop inc startAngle [] = Some (j, [] @ bs)"
    and ex: "\<not> rnd (2 * inc) < \<bar>rnd (j - stop)\<bar>"
    and adv: "advancing dir inc (bs @ [j])" "hd (bs @ [j]) = startAngle"
    and mem: "\<forall>a\<in>set bs. 0 \<le> dir_value dir * (a - startAngle) \<and> 0 < dir_value dir * (stop - a)"
    and last: "0 \<le> dir_value dir * (stop - j)"
    and len: "real (length bs) * (3 * inc / 4) \<le> dir_value dir * (j - startAngle)"
    by blast
  have "dir_value dir * (stop - startAngle)
      = dir_value dir * (stop - j) + dir_value dir * (j - startAngle)" by (simp add: algebra_simps)
  with len last have "real (length bs) * (3 * inc / 4) \<le> dir_value dir * (stop - startAngle)"
    by linarith
  with run ex adv mem last ahead show ?thesis by auto
qed

theorem arc_loop_double_terminates_monotone_witness:
  "arc_loop_double Left (stop_angle_double Left 0 3)
      (rnd (pathResolution \<lparr>turningRadius = 1, pathResolution = 1\<rparr>
            / turningRadius \<lparr>turningRadius = 1, pathResolution = 1\<rparr>)) 0 [] = Some (1, [0])
   \<and> \<not> rnd (2 * 1) < \<bar>rnd (1 - 3)\<bar>
   \<and> advancing Left 1 ([0] @ [1])
   \<and> 0 \<le> dir_value Left * (0 - 0) \<and> 0 < dir_value Left * (3 - 0)
   \<and> 0 \<le> dir_value Left * (3 - 1)
   \<and> real (length [0 :: real]) * (3 * 1 / 4) \<le> dir_value Left * (3 - 0)"
proof -
  have s: "stop_angle_double Left 0 3 = 3" by (simp add: stop_angle_double_def)
  have "(3::real) \<le> 2 * M_PI" by (simp add: M_PI_def)
  with arc_loop_double_terminates_monotone [of 0 3 "\<lparr>turningRadius = 1, pathResolution = 1\<rparr>" Left]
  show ?thesis by (simp add: s ex8_run)
qed




text \<open>
  C10. \<open>generatePath\<close> clears the path before it emits a sample: when \<open>makePath\<close>
  succeeds on a path message, it succeeds on any other path message with the same poses
  (and the same stamp and frame) as result.
\<close>

theorem path_independent_of_old_contents:
  assumes "makePath cfg clk getYaw start goal pth1 = Some (True, p1)"
  shows "\<exists>p2. makePath cfg clk getYaw start goal pth2 = Some (True, p2)
            \<and> poses p2 = poses p1
            \<and> stamp (path_header p2) = stamp (path_header p1)
            \<and> frame_id (path_header p2) = frame_id (path_header p1)"
  using assms unfolding makePath_eq generatePath_eq
  by (auto split: if_splits option.splits)

theorem path_independent_of_old_contents_witness:
  "\<exists>p1 p2. makePath \<lparr>turningRadius = 1, pathResolution = 7 / 8\<rparr> (\<lambda>n. n) yaw_of
          (pose_at 0 0) (pose_at (- 10) 2) empty_path = Some (True, p1)
     \<and> makePath \<lparr>turningRadius = 1, pathResolution = 7 / 8\<rparr> (\<lambda>n. n) yaw_of
          (pose_at 0 0) (pose_at (- 10) 2) (empty_path\<lparr>poses := [pose_at 3 4]\<rparr>) = Some (True, p2)
     \<and> poses p2 = poses p1"
proof -
  have "\<exists>ps. makePath \<lparr>turningRadius = 1, pathResolution = 7 / 8\<rparr> (\<lambda>n. n) yaw_of
          (pose_at 0 0) (pose_at (- 10) 2) empty_path =
            Some (True, empty_path\<lparr>path_header := (path_header empty_path)\<lparr>stamp := 0, frame_id := ''map''\<rparr>,
                             poses := ps @ [pose_at (- 10) 2]\<rparr>)"
    by (rule makePath_closed) simp_all
  then obtain p1 where p1: "makePath \<lparr>turningRadius = 1, pathResolution = 7 / 8\<rparr> (\<lambda>n. n) yaw_of
          (pose_at 0 0) (pose_at (- 10) 2) empty_path = Some (True, p1)" by blast
  from path_independent_of_old_contents [OF p1, of "empty_path\<lparr>poses := [pose_at 3 4]\<rparr>"] p1
  show ?thesis by blast
qed

end
